theory Spec2Isabelle
  imports Main "HOL-Library.Multiset"
begin

section \<open>Python dictionaries\<close>

text \<open>
  A Python \<open>dict\<close> keeps its keys in insertion order and holds every key once. It is
  modelled as an association list; \<open>dict_set\<close> is the assignment \<open>d[k] = v\<close>, which
  overwrites in place when the key is present and appends the key otherwise, and so keeps
  the keys distinct.
\<close>

type_synonym ('k, 'v) dict = "('k \<times> 'v) list"

definition dict_keys :: "('k, 'v) dict \<Rightarrow> 'k list" where
  "dict_keys d = map fst d"

fun dict_set :: "('k, 'v) dict \<Rightarrow> 'k \<Rightarrow> 'v \<Rightarrow> ('k, 'v) dict" where
  "dict_set [] k v = [(k, v)]"
| "dict_set ((k', v') # ps) k v =
     (if k' = k then (k', v) # ps else (k', v') # dict_set ps k v)"

text \<open>\<open>d.get(k, [])\<close>: the list stored under a key, the empty list for an absent key.\<close>

definition entries :: "('k, 'v list) dict \<Rightarrow> 'k \<Rightarrow> 'v list" where
  "entries d k = (case map_of d k of None \<Rightarrow> [] | Some vs \<Rightarrow> vs)"

text \<open>
  Python's \<open>d1 == d2\<close> on dictionaries: the same keys, and equal values under every key
  (the order of the keys is not compared, the order inside a list value is).
\<close>

definition dict_eq :: "('k, 'v) dict \<Rightarrow> ('k, 'v) dict \<Rightarrow> bool" where
  "dict_eq d1 d2 =
     (set (dict_keys d1) = set (dict_keys d2) \<and>
      list_all (\<lambda>k. map_of d1 k = map_of d2 k) (dict_keys d1))"

section \<open>\<open>_inverted\<close>\<close>

text \<open>\<open>output.setdefault(value, list()).append(key)\<close>, with the roles of key and value as
  in the source: the list under \<open>k\<close> is created empty when absent, then \<open>v\<close> is appended.\<close>

fun setdefault_append :: "('k, 'v list) dict \<Rightarrow> 'k \<Rightarrow> 'v \<Rightarrow> ('k, 'v list) dict" where
  "setdefault_append [] k v = [(k, [v])]"
| "setdefault_append ((k', vs) # ps) k v =
     (if k' = k then (k', vs @ [v]) # ps else (k', vs) # setdefault_append ps k v)"

text \<open>The two nested \<open>for\<close> loops of \<open>_inverted\<close>, over the items of the input dictionary and
  over each value list, starting from the empty dictionary.\<close>

definition inverted :: "('k, 'v list) dict \<Rightarrow> ('v, 'k list) dict" where
  "inverted input =
     foldl (\<lambda>output (key, value_list).
              foldl (\<lambda>out value. setdefault_append out value key) output value_list)
       [] input"

text \<open>The same two loops continuing from a dictionary built so far; \<open>inverted\<close> is
  \<open>inverted_from []\<close>.\<close>

definition inverted_from :: "('v, 'k list) dict \<Rightarrow> ('k, 'v list) dict \<Rightarrow> ('v, 'k list) dict" where
  "inverted_from output input =
     foldl (\<lambda>output (key, value_list).
              foldl (\<lambda>out value. setdefault_append out value key) output value_list)
       output input"

section \<open>Project items, solids and pipelines\<close>

text \<open>
  A \<open>ProjectItem\<close> is an external collaborator. Its methods may change the item and the
  world around it, so they take and return a world state \<open>'w\<close>; \<open>'r\<close> is the type of
  the resources the items exchange, which the engine only routes. The direction is the
  string the source passes, \<open>''backward''\<close> or \<open>''forward''\<close>. The methods return as
  their interface says; an item that raises is not modelled.
\<close>

record ('r, 'w) project_item =
  name :: string
  short_name :: string
  execute :: "'w \<Rightarrow> 'r list \<Rightarrow> string \<Rightarrow> bool \<times> 'w"
  output_resources :: "'w \<Rightarrow> string \<Rightarrow> 'r list \<times> 'w"
  stop_execution :: "'w \<Rightarrow> 'w"

datatype error = KeyError | DagsterInvalidDefinitionError

datatype SpineEngineState = SLEEPING | RUNNING | USER_STOPPED | FAILED | COMPLETED

text \<open>
  What \<open>_make_solid_def\<close> hands to \<open>SolidDefinition\<close>. The closure \<open>compute_fn\<close> captures
  the item, the direction and the permit \<open>execute\<close>; the record keeps the three captured
  values, and \<open>compute_fn\<close> below takes them from it.
\<close>

record ('r, 'w) solid_def =
  sname :: string
  input_defs :: "string list"
  solid_item :: "('r, 'w) project_item"
  solid_direction :: string
  solid_execute :: bool
  output_defs :: "string list"

text \<open>What \<open>_make_pipeline\<close> hands to \<open>PipelineDefinition\<close>. A \<open>DependencyDefinition(n, "result")\<close>
  is the pair of the solid's name and the output's name.\<close>

record ('r, 'w) pipeline =
  pipeline_name :: string
  solid_defs :: "('r, 'w) solid_def list"
  dependencies :: "(string, (string, string \<times> string) dict) dict"

text \<open>The attributes of a \<open>SpineEngine\<close> object: \<open>self_state\<close> is \<open>self._state\<close>, and so on.\<close>

record ('r, 'w) SpineEngine =
  self_backward_pipeline :: "('r, 'w) pipeline"
  self_forward_pipeline :: "('r, 'w) pipeline"
  self_project_item_lookup :: "(string, ('r, 'w) project_item) dict"
  self_state :: SpineEngineState
  self_running_item :: "('r, 'w) project_item option"

section \<open>Construction\<close>

text \<open>A dictionary comprehension \<open>{f(x): g(x) for x in xs}\<close>: the assignments in order.\<close>

definition dict_comp :: "('a \<Rightarrow> 'k) \<Rightarrow> ('a \<Rightarrow> 'v) \<Rightarrow> 'a list \<Rightarrow> ('k, 'v) dict" where
  "dict_comp f g xs = foldl (\<lambda>d x. dict_set d (f x) (g x)) [] xs"

text \<open>\<open>[d[x] for x in value]\<close>: a subscript of an absent key raises \<open>KeyError\<close>.\<close>

fun lookup_all :: "('k, 'v) dict \<Rightarrow> 'k list \<Rightarrow> error + 'v list" where
  "lookup_all d [] = Inr []"
| "lookup_all d (x # xs) =
     (case map_of d x of
        None \<Rightarrow> Inl KeyError
      | Some y \<Rightarrow> (case lookup_all d xs of Inl e \<Rightarrow> Inl e | Inr ys \<Rightarrow> Inr (y # ys)))"

text \<open>
  \<open>{d[key]: [d[x] for x in value] for key, value in successors.items()}\<close>, the items of
  \<open>successors\<close> in order and the dictionary built so far as an accumulator. Both
  subscripts raise \<open>KeyError\<close> on an unknown name.
\<close>

fun back_injectors_from ::
  "(string, string) dict \<Rightarrow> (string, string list) dict \<Rightarrow> (string, string list) dict \<Rightarrow>
   error + (string, string list) dict" where
  "back_injectors_from d acc [] = Inr acc"
| "back_injectors_from d acc ((key, val) # rest) =
     (case map_of d key of
        None \<Rightarrow> Inl KeyError
      | Some k \<Rightarrow>
          (case lookup_all d val of
             Inl e \<Rightarrow> Inl e
           | Inr vs \<Rightarrow> back_injectors_from d (dict_set acc k vs) rest))"

definition make_solid_def ::
  "('r, 'w) project_item \<Rightarrow> (string, string list) dict \<Rightarrow> string \<Rightarrow> bool \<Rightarrow> ('r, 'w) solid_def" where
  "make_solid_def item injectors direction exec =
     \<lparr>sname = short_name item,
      input_defs = map (\<lambda>n. ''input_from_'' @ n) (entries injectors (short_name item)),
      solid_item = item,
      solid_direction = direction,
      solid_execute = exec,
      output_defs = [''result'']\<rparr>"

definition make_dependencies ::
  "(string, string list) dict \<Rightarrow> (string, (string, string \<times> string) dict) dict" where
  "make_dependencies injectors =
     dict_comp fst
       (\<lambda>(item_name, injector_names).
          dict_comp (\<lambda>n. ''input_from_'' @ n) (\<lambda>n. (n, ''result'')) injector_names)
       injectors"

text \<open>The list comprehension of \<open>_make_pipeline\<close>: \<open>execution_permits[item.name]\<close> raises
  \<open>KeyError\<close> for an item without a permit.\<close>

fun make_solid_defs ::
  "('r, 'w) project_item list \<Rightarrow> (string, string list) dict \<Rightarrow> string \<Rightarrow> (string, bool) dict \<Rightarrow>
   error + ('r, 'w) solid_def list" where
  "make_solid_defs [] injectors direction execution_permits = Inr []"
| "make_solid_defs (item # items) injectors direction execution_permits =
     (case map_of execution_permits (name item) of
        None \<Rightarrow> Inl KeyError
      | Some exec \<Rightarrow>
          (case make_solid_defs items injectors direction execution_permits of
             Inl e \<Rightarrow> Inl e
           | Inr sds \<Rightarrow> Inr (make_solid_def item injectors direction exec # sds)))"

text \<open>
  \<open>PipelineDefinition\<close> is the framework's constructor; whether it accepts its arguments is
  the parameter \<open>valid\<close>, and a refusal is the framework's error.
\<close>

definition make_pipeline ::
  "(('r, 'w) pipeline \<Rightarrow> bool) \<Rightarrow> ('r, 'w) project_item list \<Rightarrow> (string, string list) dict \<Rightarrow>
   string \<Rightarrow> (string, bool) dict \<Rightarrow> error + ('r, 'w) pipeline" where
  "make_pipeline valid project_items injectors direction execution_permits =
     (case make_solid_defs project_items injectors direction execution_permits of
        Inl e \<Rightarrow> Inl e
      | Inr sds \<Rightarrow>
          (let p = \<lparr>pipeline_name = direction @ ''_pipeline'',
                    solid_defs = sds,
                    dependencies = make_dependencies injectors\<rparr>
           in if valid p then Inr p else Inl DagsterInvalidDefinitionError))"

definition item_names :: "('r, 'w) project_item list \<Rightarrow> (string, string) dict" where
  "item_names project_items = dict_comp name short_name project_items"

definition back_injectors ::
  "('r, 'w) project_item list \<Rightarrow> (string, string list) dict \<Rightarrow> error + (string, string list) dict" where
  "back_injectors project_items successors =
     back_injectors_from (item_names project_items) [] successors"

text \<open>\<open>SpineEngine.__init__\<close>, statement by statement; \<open>item_names\<close> is the local \<open>d\<close>.\<close>

definition SpineEngine_init ::
  "(('r, 'w) pipeline \<Rightarrow> bool) \<Rightarrow> ('r, 'w) project_item list \<Rightarrow> (string, string list) dict \<Rightarrow>
   (string, bool) dict \<Rightarrow> error + ('r, 'w) SpineEngine" where
  "SpineEngine_init valid project_items successors execution_permits =
     (case back_injectors project_items successors of
        Inl e \<Rightarrow> Inl e
      | Inr back \<Rightarrow>
          (let forth_injectors = inverted back in
           case make_pipeline valid project_items back ''backward'' execution_permits of
             Inl e \<Rightarrow> Inl e
           | Inr bp \<Rightarrow>
               (case make_pipeline valid project_items forth_injectors ''forward'' execution_permits of
                  Inl e \<Rightarrow> Inl e
                | Inr fp \<Rightarrow>
                    Inr \<lparr>self_backward_pipeline = bp,
                         self_forward_pipeline = fp,
                         self_project_item_lookup = dict_comp short_name (\<lambda>item. item) project_items,
                         self_state = SLEEPING,
                         self_running_item = None\<rparr>)))"

section \<open>The environment of a run\<close>

text \<open>
  The world the items act on, and a record of what happened, in order: the calls made on
  items (with the item's short name), the events the loop of \<open>run\<close> consumed, and the
  arrivals of a \<open>stop()\<close> from the other thread. The record is a ghost: no function
  reads it.
\<close>

datatype DagsterEventType = STEP_START | STEP_OUTPUT | STEP_SUCCESS | STEP_FAILURE | STEP_SKIPPED

record event =
  event_type :: DagsterEventType
  solid_name :: string

datatype 'r action =
    Execute string "'r list" string
  | OutputResources string string
  | StopExecution string
  | Consumed event
  | Stop

record ('r, 'w) env =
  world :: 'w
  log :: "'r action list"

section \<open>\<open>state\<close>, \<open>stop\<close> and \<open>compute_fn\<close>\<close>

definition state :: "('r, 'w) SpineEngine \<Rightarrow> SpineEngineState" where
  "state self = self_state self"

text \<open>\<open>SpineEngine.stop\<close>: the assignment, then the call on the running item if one is
  recorded.\<close>

definition stop :: "('r, 'w) SpineEngine \<Rightarrow> ('r, 'w) env \<Rightarrow> ('r, 'w) SpineEngine \<times> ('r, 'w) env" where
  "stop self env =
     (let self1 = self\<lparr>self_state := USER_STOPPED\<rparr> in
      case self_running_item self1 of
        None \<Rightarrow> (self1, env)
      | Some item \<Rightarrow>
          (self1, env\<lparr>world := stop_execution item (world env),
                      log := log env @ [StopExecution (short_name item)]\<rparr>))"

datatype 'r compute_result = Failure | Output "'r list"

text \<open>The last statement of \<open>compute_fn\<close>: \<open>yield Output(value=item.output_resources(direction), ...)\<close>.\<close>

definition yield_output ::
  "('r, 'w) project_item \<Rightarrow> string \<Rightarrow> ('r, 'w) env \<Rightarrow> 'r compute_result \<times> ('r, 'w) env" where
  "yield_output item direction env =
     (let (rs, w) = output_resources item (world env) direction in
      (Output rs, env\<lparr>world := w, log := log env @ [OutputResources (short_name item) direction]\<rparr>))"

text \<open>
  \<open>compute_fn\<close> of \<open>_make_solid_def\<close>, for the engine \<open>self\<close> and the solid whose closure it
  is. \<open>inputs\<close> is the dictionary from input names to the values received; \<open>and\<close> is
  short-circuit, so \<open>item.execute\<close> is called only when the permit is true.
\<close>

definition compute_fn ::
  "('r, 'w) SpineEngine \<Rightarrow> ('r, 'w) solid_def \<Rightarrow> (string, 'r list) dict \<Rightarrow> ('r, 'w) env \<Rightarrow>
   'r compute_result \<times> ('r, 'w) env" where
  "compute_fn self sd inputs env =
     (if state self \<in> {USER_STOPPED, FAILED} then (Failure, env)
      else
        (let inputs' = concat (map snd inputs);
             item = solid_item sd;
             direction = solid_direction sd
         in if solid_execute sd then
              (let (ok, w) = execute item (world env) inputs' direction;
                   env1 = env\<lparr>world := w,
                              log := log env @ [Execute (short_name item) inputs' direction]\<rparr>
               in if \<not> ok then (Failure, env1) else yield_output item direction env1)
            else yield_output item direction env))"

section \<open>The loop of \<open>run\<close>\<close>

text \<open>The body of the \<open>for\<close> loop of \<open>run\<close> for one event; the subscripts of
  \<open>_project_item_lookup\<close> raise \<open>KeyError\<close> on an unknown solid name.\<close>

definition handle_event :: "('r, 'w) SpineEngine \<Rightarrow> event \<Rightarrow> error + ('r, 'w) SpineEngine" where
  "handle_event self ev =
     (if event_type ev = STEP_START then
        (case map_of (self_project_item_lookup self) (solid_name ev) of
           None \<Rightarrow> Inl KeyError
         | Some item \<Rightarrow> Inr (self\<lparr>self_running_item := Some item\<rparr>))
      else if event_type ev = STEP_FAILURE then
        (case map_of (self_project_item_lookup self) (solid_name ev) of
           None \<Rightarrow> Inl KeyError
         | Some item \<Rightarrow>
             (let self1 = self\<lparr>self_running_item := Some item\<rparr> in
              Inr (if self_state self1 \<noteq> USER_STOPPED then self1\<lparr>self_state := FAILED\<rparr> else self1)))
      else Inr self)"

text \<open>The loop consuming one event: the body, and the event noted in the record.\<close>

definition consume ::
  "DagsterEventType \<Rightarrow> string \<Rightarrow> ('r, 'w) SpineEngine \<times> ('r, 'w) env \<Rightarrow>
   error + ('r, 'w) SpineEngine \<times> ('r, 'w) env" where
  "consume ty n c =
     (let ev = \<lparr>event_type = ty, solid_name = n\<rparr> in
      case handle_event (fst c) ev of
        Inl e \<Rightarrow> Inl e
      | Inr self' \<Rightarrow> Inr (self', (snd c)\<lparr>log := log (snd c) @ [Consumed ev]\<rparr>))"

section \<open>The other thread\<close>

text \<open>
  \<open>stop()\<close> is called from another thread while \<open>run()\<close> is under way. The places where
  a call can land are the points between the steps of \<open>run\<close>: before a node is started,
  between its start event and its \<open>compute_fn\<close>, between its \<open>compute_fn\<close> and the event of
  its result, and after the last event, before \<open>run\<close> looks at the state for the last
  time. A point names the pipeline and the solid. The schedule \<open>stops\<close> says at which
  points a call lands; every theorem about \<open>run\<close> holds for every schedule. A call that
  lands inside a step of the loop body itself is not modelled.
\<close>

datatype stop_point =
    BeforeStart string string
  | BeforeCompute string string
  | AfterCompute string string
  | BeforeFinish

definition other_thread ::
  "(stop_point \<Rightarrow> bool) \<Rightarrow> stop_point \<Rightarrow> ('r, 'w) SpineEngine \<times> ('r, 'w) env \<Rightarrow>
   ('r, 'w) SpineEngine \<times> ('r, 'w) env" where
  "other_thread stops pt c =
     (if stops pt then stop (fst c) ((snd c)\<lparr>log := log (snd c) @ [Stop]\<rparr>) else c)"

section \<open>The scheduler\<close>

text \<open>
  Modelled from the spec: the framework that schedules the solids and produces the events
  (\<open>execute_pipeline_iterator\<close> of dagster) is not among the sources; every definition of
  this section follows the Dependency Scheduler of the specification's section 4.2. A node
  ends a pass succeeded with its output, failed, or skipped.
\<close>

datatype 'r node_status = Succeeded "'r list" | NodeFailed | Skipped

text \<open>Modelled from the spec: the predecessors of a node, by name, in the order of the
  pipeline's dependencies (the node's injector list).\<close>

definition preds :: "('r, 'w) pipeline \<Rightarrow> string \<Rightarrow> string list" where
  "preds p n = map (\<lambda>(input_name, (m, output_name)). m) (entries (dependencies p) n)"

text \<open>Modelled from the spec: the output a node recorded (none unless it succeeded), and
  whether it succeeded.\<close>

definition output_of :: "(string, 'r node_status) dict \<Rightarrow> string \<Rightarrow> 'r list" where
  "output_of st n = (case map_of st n of Some (Succeeded rs) \<Rightarrow> rs | _ \<Rightarrow> [])"

definition succeeded :: "(string, 'r node_status) dict \<Rightarrow> string \<Rightarrow> bool" where
  "succeeded st n = (case map_of st n of Some (Succeeded rs) \<Rightarrow> True | _ \<Rightarrow> False)"

text \<open>Modelled from the spec: the inputs of a node, which are, under each input name, the
  output of the predecessor it is connected to, in predecessor order.\<close>

definition gather_inputs ::
  "('r, 'w) pipeline \<Rightarrow> (string, 'r node_status) dict \<Rightarrow> string \<Rightarrow> (string, 'r list) dict" where
  "gather_inputs p st n =
     map (\<lambda>(input_name, (m, output_name)). (input_name, output_of st m)) (entries (dependencies p) n)"

text \<open>Modelled from the spec: a node is pending while it has no status, and ready when it
  is pending and every predecessor has reached a status.\<close>

definition pending :: "(string, 'r node_status) dict \<Rightarrow> ('r, 'w) solid_def \<Rightarrow> bool" where
  "pending st sd = (map_of st (sname sd) = None)"

definition ready :: "('r, 'w) pipeline \<Rightarrow> (string, 'r node_status) dict \<Rightarrow> ('r, 'w) solid_def \<Rightarrow> bool" where
  "ready p st sd = (pending st sd \<and> list_all (\<lambda>m. map_of st m \<noteq> None) (preds p (sname sd)))"

text \<open>
  Modelled from the spec: the Dependency Scheduler of the specification's section 4.2 for
  one node, which stands for the framework's \<open>execute_pipeline_iterator\<close> (the framework is
  not among the sources). A node with a failed or skipped predecessor is skipped without
  its \<open>compute_fn\<close>; another node is started, computed on the gathered inputs, and
  succeeds with its output or fails. Each event is handed to the loop of \<open>run\<close> when it is
  produced, as a generator does, and the other thread may act between the steps.
\<close>

definition run_node ::
  "(stop_point \<Rightarrow> bool) \<Rightarrow> ('r, 'w) pipeline \<Rightarrow> (string, 'r node_status) dict \<Rightarrow> ('r, 'w) solid_def \<Rightarrow>
   ('r, 'w) SpineEngine \<times> ('r, 'w) env \<Rightarrow>
   error + 'r node_status \<times> ('r, 'w) SpineEngine \<times> ('r, 'w) env" where
  "run_node stops p st sd c =
     (let pn = pipeline_name p; n = sname sd in
      if \<not> list_all (succeeded st) (preds p n) then
        (case consume STEP_SKIPPED n c of
           Inl e \<Rightarrow> Inl e
         | Inr c1 \<Rightarrow> Inr (Skipped, c1))
      else
        (case consume STEP_START n (other_thread stops (BeforeStart pn n) c) of
           Inl e \<Rightarrow> Inl e
         | Inr c1 \<Rightarrow>
             (let c2 = other_thread stops (BeforeCompute pn n) c1;
                  (res, env3) = compute_fn (fst c2) sd (gather_inputs p st n) (snd c2);
                  c3 = other_thread stops (AfterCompute pn n) (fst c2, env3)
              in case res of
                   Failure \<Rightarrow>
                     (case consume STEP_FAILURE n c3 of
                        Inl e \<Rightarrow> Inl e
                      | Inr c4 \<Rightarrow> Inr (NodeFailed, c4))
                 | Output rs \<Rightarrow>
                     (case consume STEP_OUTPUT n c3 of
                        Inl e \<Rightarrow> Inl e
                      | Inr c4 \<Rightarrow>
                          (case consume STEP_SUCCESS n c4 of
                             Inl e \<Rightarrow> Inl e
                           | Inr c5 \<Rightarrow> Inr (Succeeded rs, c5))))))"

text \<open>
  Modelled from the spec: the Dependency Scheduler of section 4.2 for one pass. While some
  node is ready (it has no status and every predecessor has one), the first ready node in
  the order of the pipeline's solids is run and its status recorded. The pass ends when no
  node is ready.
\<close>

text \<open>Every step of a pass gives a status to a node that had none, so a pass ends.\<close>

lemma map_of_dict_set: "map_of (dict_set d k v) = (map_of d)(k \<mapsto> v)"
  by (induction d) (auto simp: fun_eq_iff)

lemma pending_decreases:
  assumes "sd \<in> set sds" and "pending st sd"
  shows "length (filter (pending (dict_set st (sname sd) status)) sds) < length (filter (pending st) sds)"
proof -
  let ?P = "pending (dict_set st (sname sd) status)"
  have imp: "?P x \<Longrightarrow> pending st x" for x
    by (auto simp: pending_def map_of_dict_set split: if_splits)
  have "filter ?P sds = filter ?P (filter (pending st) sds)"
    by (auto simp: filter_filter imp intro: filter_cong)
  moreover have "sd \<in> set (filter (pending st) sds)" using assms by simp
  moreover have "\<not> ?P sd" by (simp add: pending_def map_of_dict_set)
  ultimately show ?thesis
    by (metis length_filter_less)
qed

function execute_pipeline_iterator ::
  "(stop_point \<Rightarrow> bool) \<Rightarrow> ('r, 'w) pipeline \<Rightarrow> (string, 'r node_status) dict \<Rightarrow>
   ('r, 'w) SpineEngine \<times> ('r, 'w) env \<Rightarrow>
   error + (string, 'r node_status) dict \<times> ('r, 'w) SpineEngine \<times> ('r, 'w) env" where
  "execute_pipeline_iterator stops p st c =
     (case find (ready p st) (solid_defs p) of
        None \<Rightarrow> Inr (st, c)
      | Some sd \<Rightarrow>
          (case run_node stops p st sd c of
             Inl e \<Rightarrow> Inl e
           | Inr (status, c') \<Rightarrow>
               execute_pipeline_iterator stops p (dict_set st (sname sd) status) c'))"
  by pat_completeness auto
termination
proof (relation "measure (\<lambda>(stops, p, st, c). length (filter (pending st) (solid_defs p)))")
  show "wf (measure (\<lambda>(stops, p, st, c). length (filter (pending st) (solid_defs p))))"
    by simp
next
  fix stops :: "stop_point \<Rightarrow> bool" and p :: "('r, 'w) pipeline"
    and st :: "(string, 'r node_status) dict" and c c' :: "('r, 'w) SpineEngine \<times> ('r, 'w) env"
    and sd status
  assume "find (ready p st) (solid_defs p) = Some sd"
  then have "sd \<in> set (solid_defs p)" and "pending st sd"
    by (auto simp: find_Some_iff ready_def)
  then show "((stops, p, dict_set st (sname sd) status, c'), (stops, p, st, c))
      \<in> measure (\<lambda>(stops, p, st, c). length (filter (pending st) (solid_defs p)))"
    by (simp add: pending_decreases)
qed

declare execute_pipeline_iterator.simps [simp del]

section \<open>\<open>run\<close>\<close>

text \<open>
  \<open>SpineEngine.run\<close>: the assignment of \<open>RUNNING\<close>, the events of the backward pipeline then
  those of the forward pipeline (the \<open>chain\<close>), each pass starting with no node status, and
  the final test of the state.
\<close>

definition run ::
  "(stop_point \<Rightarrow> bool) \<Rightarrow> ('r, 'w) SpineEngine \<Rightarrow> ('r, 'w) env \<Rightarrow>
   error + ('r, 'w) SpineEngine \<times> ('r, 'w) env" where
  "run stops self env =
     (let self1 = self\<lparr>self_state := RUNNING\<rparr> in
      case execute_pipeline_iterator stops (self_backward_pipeline self1) [] (self1, env) of
        Inl e \<Rightarrow> Inl e
      | Inr (stb, c2) \<Rightarrow>
          (case execute_pipeline_iterator stops (self_forward_pipeline (fst c2)) [] c2 of
             Inl e \<Rightarrow> Inl e
           | Inr (stf, c3) \<Rightarrow>
               (let (self4, env4) = other_thread stops BeforeFinish c3 in
                Inr (if self_state self4 = RUNNING then self4\<lparr>self_state := COMPLETED\<rparr> else self4,
                     env4))))"

section \<open>Reading the record of a run\<close>

text \<open>The calls of \<open>execute\<close> and \<open>output_resources\<close> in a record, in order.\<close>

definition item_work :: "'r action list \<Rightarrow> 'r action list" where
  "item_work l =
     filter (\<lambda>a. case a of Execute n ins d \<Rightarrow> True | OutputResources n d \<Rightarrow> True | _ \<Rightarrow> False) l"

definition stop_called :: "'r action list \<Rightarrow> bool" where
  "stop_called l = list_ex (\<lambda>a. case a of Stop \<Rightarrow> True | _ \<Rightarrow> False) l"

definition failure_consumed :: "'r action list \<Rightarrow> bool" where
  "failure_consumed l =
     list_ex (\<lambda>a. case a of Consumed ev \<Rightarrow> event_type ev = STEP_FAILURE | _ \<Rightarrow> False) l"

text \<open>The state the loop of \<open>run\<close> is in after the events and the stops of a record, when
  it started in \<open>RUNNING\<close>.\<close>

definition loop_state :: "'r action list \<Rightarrow> SpineEngineState" where
  "loop_state l =
     (if stop_called l then USER_STOPPED else if failure_consumed l then FAILED else RUNNING)"

text \<open>The steps a run is made of: an action of the other thread, an event consumed by
  the loop, a call of a \<open>compute_fn\<close>.\<close>

inductive micro_step ::
  "('r, 'w) SpineEngine \<times> ('r, 'w) env \<Rightarrow> ('r, 'w) SpineEngine \<times> ('r, 'w) env \<Rightarrow> bool" where
  thread: "micro_step c (other_thread stops pt c)"
| event: "consume ty n c = Inr c' \<Longrightarrow> micro_step c c'"
| compute: "compute_fn (fst c) sd inputs (snd c) = (res, env') \<Longrightarrow> micro_step c (fst c, env')"

section \<open>The dependency relation of a pipeline\<close>

text \<open>\<open>(m, n)\<close> is in \<open>feeds p\<close> when \<open>m\<close> is a predecessor of \<open>n\<close>: \<open>n\<close> takes an input from
  \<open>m\<close>. The transitive dependents of \<open>m\<close> are the \<open>n\<close> with \<open>(m, n)\<close> in the transitive
  closure.\<close>

definition feeds :: "('r, 'w) pipeline \<Rightarrow> (string \<times> string) set" where
  "feeds p = {(m, n). m \<in> set (preds p n)}"

text \<open>A pipeline the framework accepts has no cycle, and every predecessor is one of its
  solids.\<close>

definition acyclic_closed :: "('r, 'w) pipeline \<Rightarrow> bool" where
  "acyclic_closed p =
     (wf (feeds p) \<and>
      list_all (\<lambda>sd. list_all (\<lambda>m. m \<in> sname ` set (solid_defs p)) (preds p (sname sd))) (solid_defs p))"

text \<open>The statuses a pass has given so far are consistent: a node with a status has a
  status for every predecessor, and is skipped when one of them did not succeed.\<close>

definition cascaded :: "('r, 'w) pipeline \<Rightarrow> (string, 'r node_status) dict \<Rightarrow> bool" where
  "cascaded p st =
     (\<forall>n. map_of st n \<noteq> None \<longrightarrow>
        (\<forall>m\<in>set (preds p n). map_of st m \<noteq> None) \<and>
        ((\<exists>m\<in>set (preds p n). \<not> succeeded st m) \<longrightarrow> map_of st n = Some Skipped))"

section \<open>A small workflow\<close>

text \<open>
  Items whose world is a journal of what they did: \<open>execute\<close> notes the execution and
  returns \<open>ok\<close>, \<open>output_resources\<close> yields one resource named after the item and the
  direction, \<open>stop_execution\<close> notes the stop.
\<close>

definition example_item :: "string \<Rightarrow> string \<Rightarrow> bool \<Rightarrow> (string, string list) project_item" where
  "example_item n s ok =
     \<lparr>name = n, short_name = s,
      execute = (\<lambda>w inputs direction. (ok, w @ [s @ '' executed '' @ direction])),
      output_resources = (\<lambda>w direction. ([s @ ''.'' @ direction], w)),
      stop_execution = (\<lambda>w. w @ [s @ '' stopped''])\<rparr>"

definition items_ab :: "(string, string list) project_item list" where
  "items_ab = [example_item ''item a'' ''a'' True, example_item ''item b'' ''b'' True]"

definition successors_ab :: "(string, string list) dict" where
  "successors_ab = [(''item a'', [''item b'']), (''item b'', [])]"

definition permits_ab :: "(string, bool) dict" where
  "permits_ab = [(''item a'', True), (''item b'', True)]"

definition no_stops :: "stop_point \<Rightarrow> bool" where
  "no_stops pt = False"

definition env0 :: "(string, string list) env" where
  "env0 = \<lparr>world = [], log = []\<rparr>"

text \<open>
  The engine of the same two items and the same successors, where \<open>ok\<close> is what item a's
  \<open>execute\<close> returns and \<open>permit\<close> is item a's execution permit; written out as the
  constructor builds it.
\<close>

definition example_pipeline ::
  "bool \<Rightarrow> bool \<Rightarrow> string \<Rightarrow> (string, string list) dict \<Rightarrow> (string, string list) pipeline" where
  "example_pipeline ok permit direction injectors =
     \<lparr>pipeline_name = direction @ ''_pipeline'',
      solid_defs = [make_solid_def (example_item ''item a'' ''a'' ok) injectors direction permit,
                    make_solid_def (example_item ''item b'' ''b'' True) injectors direction True],
      dependencies = make_dependencies injectors\<rparr>"

definition example_engine :: "bool \<Rightarrow> bool \<Rightarrow> (string, string list) SpineEngine" where
  "example_engine ok permit =
     \<lparr>self_backward_pipeline = example_pipeline ok permit ''backward'' [(''a'', [''b'']), (''b'', [])],
      self_forward_pipeline = example_pipeline ok permit ''forward'' [(''b'', [''a''])],
      self_project_item_lookup =
        [(''a'', example_item ''item a'' ''a'' ok), (''b'', example_item ''item b'' ''b'' True)],
      self_state = SLEEPING,
      self_running_item = None\<rparr>"

text \<open>The engine of the small workflow, run to its end with no stop from the other
  thread; the state an outcome shows; and a \<open>stop()\<close> after an outcome.\<close>

definition run_ab :: "error + (string, string list) SpineEngine \<times> (string, string list) env" where
  "run_ab =
     (case SpineEngine_init (\<lambda>p. True) items_ab successors_ab permits_ab of
        Inl e \<Rightarrow> Inl e
      | Inr eng \<Rightarrow> run no_stops eng env0)"

definition state_after :: "error + ('r, 'w) SpineEngine \<times> ('r, 'w) env \<Rightarrow> SpineEngineState option" where
  "state_after r = (case r of Inl e \<Rightarrow> None | Inr (eng, env) \<Rightarrow> Some (state eng))"

definition log_after :: "error + ('r, 'w) SpineEngine \<times> ('r, 'w) env \<Rightarrow> 'r action list" where
  "log_after r = (case r of Inl e \<Rightarrow> [] | Inr (eng, env) \<Rightarrow> log env)"

definition stop_after ::
  "error + ('r, 'w) SpineEngine \<times> ('r, 'w) env \<Rightarrow> error + ('r, 'w) SpineEngine \<times> ('r, 'w) env" where
  "stop_after r = (case r of Inl e \<Rightarrow> Inl e | Inr (eng, env) \<Rightarrow> Inr (stop eng env))"

section \<open>Facts about \<open>_inverted\<close>\<close>

lemma entries_setdefault_append:
  "entries (setdefault_append d k v) k' =
     (if k' = k then entries d k @ [v] else entries d k')"
  by (induction d) (auto simp: entries_def)

lemma keys_setdefault_append:
  "dict_keys (setdefault_append d k v) =
     (if k \<in> set (dict_keys d) then dict_keys d else dict_keys d @ [k])"
  by (induction d) (force simp: dict_keys_def)+

lemma entries_inner_loop:
  "entries (foldl (\<lambda>out value. setdefault_append out value key) out vs) v =
     entries out v @ replicate (count_list vs v) key"
proof (induction vs arbitrary: out)
  case Nil
  show ?case by simp
next
  case (Cons x vs)
  show ?case
    by (simp add: Cons.IH entries_setdefault_append replicate_app_Cons_same)
qed

lemma distinct_inner_loop:
  "distinct (dict_keys out) \<Longrightarrow>
   distinct (dict_keys (foldl (\<lambda>out value. setdefault_append out value key) out vs))"
  by (induction vs arbitrary: out) (auto simp: keys_setdefault_append)

lemma nonempty_setdefault_append:
  "[] \<notin> snd ` set d \<Longrightarrow> [] \<notin> snd ` set (setdefault_append d k v)"
  by (induction d) (fastforce simp: image_iff split: if_splits)+

lemma nonempty_inner_loop:
  "[] \<notin> snd ` set out \<Longrightarrow>
   [] \<notin> snd ` set (foldl (\<lambda>out value. setdefault_append out value key) out vs)"
  by (induction vs arbitrary: out) (auto simp: nonempty_setdefault_append)

lemma inverted_from_Nil [simp]: "inverted_from out [] = out"
  by (simp add: inverted_from_def)

lemma inverted_from_Cons [simp]:
  "inverted_from out ((key, vs) # m) =
     inverted_from (foldl (\<lambda>out value. setdefault_append out value key) out vs) m"
  by (simp add: inverted_from_def)

lemma inverted_eq_from: "inverted m = inverted_from [] m"
  by (simp add: inverted_def inverted_from_def)

lemma entries_inverted_from:
  "entries (inverted_from out m) v =
     entries out v @ concat (map (\<lambda>(key, vs). replicate (count_list vs v) key) m)"
proof (induction m arbitrary: out)
  case Nil
  show ?case by simp
next
  case (Cons p m)
  obtain key vs where p: "p = (key, vs)" by (cases p)
  show ?case
    by (simp add: p Cons.IH entries_inner_loop)
qed

lemma distinct_inverted_from:
  "distinct (dict_keys out) \<Longrightarrow> distinct (dict_keys (inverted_from out m))"
proof (induction m arbitrary: out)
  case Nil
  then show ?case by simp
next
  case (Cons p m)
  obtain key vs where p: "p = (key, vs)" by (cases p)
  show ?case
    using Cons.prems by (simp add: p Cons.IH distinct_inner_loop)
qed

lemma nonempty_inverted_from:
  "[] \<notin> snd ` set out \<Longrightarrow> [] \<notin> snd ` set (inverted_from out m)"
proof (induction m arbitrary: out)
  case Nil
  then show ?case by simp
next
  case (Cons p m)
  obtain key vs where p: "p = (key, vs)" by (cases p)
  show ?case
    using Cons.prems by (simp add: p Cons.IH nonempty_inner_loop)
qed

lemma entries_inverted:
  "entries (inverted m) v = concat (map (\<lambda>(key, vs). replicate (count_list vs v) key) m)"
  by (simp add: inverted_eq_from entries_inverted_from) (simp add: entries_def)

lemma distinct_inverted: "distinct (dict_keys (inverted m))"
  using distinct_inverted_from [of "[]" m] by (simp add: inverted_eq_from dict_keys_def)

lemma nonempty_inverted: "[] \<notin> snd ` set (inverted m)"
  by (simp add: inverted_eq_from nonempty_inverted_from)

lemma keys_iff_entries:
  assumes "[] \<notin> snd ` set d"
  shows "k \<in> set (dict_keys d) \<longleftrightarrow> entries d k \<noteq> []"
proof
  assume "k \<in> set (dict_keys d)"
  then obtain vs where vs: "map_of d k = Some vs"
    by (auto simp: dict_keys_def dest: weak_map_of_SomeI)
  then have "(k, vs) \<in> set d" by (rule map_of_SomeD)
  with assms have "vs \<noteq> []" by force
  with vs show "entries d k \<noteq> []" by (simp add: entries_def)
next
  assume "entries d k \<noteq> []"
  then show "k \<in> set (dict_keys d)"
    by (auto simp: entries_def dict_keys_def split: option.splits dest: map_of_SomeD
        intro: rev_image_eqI)
qed

lemma count_list_replicate:
  "count_list (replicate n x) y = (if x = y then n else 0)"
  by (induction n) auto

lemma count_concat_replicate:
  "distinct (map fst m) \<Longrightarrow>
   count_list (concat (map (\<lambda>(key, vs). replicate (count_list vs v) key) m)) k =
     count_list (entries m k) v"
proof (induction m)
  case Nil
  show ?case by (simp add: entries_def)
next
  case (Cons p m)
  obtain key vs where p: "p = (key, vs)" by (cases p)
  from Cons.prems have d: "distinct (map fst m)" and nk: "key \<notin> fst ` set m"
    by (auto simp: p)
  have none: "map_of m key = None"
    using nk by (simp add: map_of_eq_None_iff)
  show ?case
  proof (cases "k = key")
    case True
    have "count_list (entries m k) v = 0"
      using none True by (simp add: entries_def)
    then show ?thesis
      using Cons.IH [OF d] True by (simp add: p entries_def count_list_replicate)
  next
    case False
    then show ?thesis
      using Cons.IH [OF d] by (simp add: p entries_def count_list_replicate)
  qed
qed

lemma count_entries_inverted:
  "distinct (dict_keys m) \<Longrightarrow>
   count_list (entries (inverted m) v) k = count_list (entries m k) v"
  by (simp add: entries_inverted count_concat_replicate dict_keys_def)

lemma set_entries_inverted:
  "distinct (dict_keys m) \<Longrightarrow> k \<in> set (entries (inverted m) v) \<longleftrightarrow> v \<in> set (entries m k)"
  using count_entries_inverted [of m v k] by (metis count_list_0_iff)

section \<open>Facts about dictionaries and the construction\<close>

lemma map_of_comp_loop_cases:
  "map_of (foldl (\<lambda>d x. dict_set d (f x) (g x)) acc xs) k = Some v \<Longrightarrow>
     map_of acc k = Some v \<or> (\<exists>x\<in>set xs. f x = k \<and> g x = v)"
  by (induction xs arbitrary: acc) (fastforce simp: map_of_dict_set split: if_splits)+

lemma map_of_comp_loop_None:
  "map_of (foldl (\<lambda>d x. dict_set d (f x) (g x)) acc xs) k = None \<longleftrightarrow>
     map_of acc k = None \<and> k \<notin> f ` set xs"
  by (induction xs arbitrary: acc) (auto simp: map_of_dict_set)

lemma map_of_comp_loop_Some:
  "distinct (map f xs) \<Longrightarrow> x \<in> set xs \<Longrightarrow>
   map_of (foldl (\<lambda>d x. dict_set d (f x) (g x)) acc xs) (f x) = Some (g x)"
proof (induction xs arbitrary: acc)
  case Nil
  then show ?case by simp
next
  case (Cons y ys)
  show ?case
  proof (cases "x \<in> set ys")
    case True
    with Cons show ?thesis by simp
  next
    case False
    with Cons.prems have xy: "x = y" and fresh: "f y \<notin> f ` set ys" by auto
    let ?r = "foldl (\<lambda>d x. dict_set d (f x) (g x)) (dict_set acc (f y) (g y)) ys"
    have "map_of ?r (f y) \<noteq> None"
      by (simp add: map_of_comp_loop_None map_of_dict_set)
    then obtain a where a: "map_of ?r (f y) = Some a" by auto
    from map_of_comp_loop_cases [OF a] fresh have "a = g y"
      by (auto simp: map_of_dict_set image_iff)
    with a have "map_of ?r (f y) = Some (g y)" by simp
    then show ?thesis by (simp add: xy)
  qed
qed

lemma item_names_None:
  "map_of (item_names project_items) n = None \<longleftrightarrow> n \<notin> name ` set project_items"
  by (simp add: item_names_def dict_comp_def map_of_comp_loop_None)

lemma item_names_Some:
  "map_of (item_names project_items) n = Some s \<Longrightarrow>
     \<exists>item\<in>set project_items. name item = n \<and> short_name item = s"
  by (auto simp: item_names_def dict_comp_def dest: map_of_comp_loop_cases)

lemma item_names_of_item:
  "distinct (map name project_items) \<Longrightarrow> item \<in> set project_items \<Longrightarrow>
   map_of (item_names project_items) (name item) = Some (short_name item)"
  by (simp add: item_names_def dict_comp_def map_of_comp_loop_Some)

lemma lookup_all_unknown:
  "x \<in> set xs \<Longrightarrow> map_of d x = None \<Longrightarrow> lookup_all d xs = Inl KeyError"
proof (induction xs)
  case Nil
  then show ?case by simp
next
  case (Cons y ys)
  show ?case
  proof (cases "map_of d y")
    case None
    then show ?thesis by simp
  next
    case (Some z)
    with Cons.prems have "x \<in> set ys" by auto
    with Cons have "lookup_all d ys = Inl KeyError" by simp
    with Some show ?thesis by simp
  qed
qed

lemma lookup_all_Inr:
  "lookup_all d xs = Inr ys \<Longrightarrow> list_all2 (\<lambda>x y. map_of d x = Some y) xs ys"
  by (induction xs arbitrary: ys) (auto split: option.splits sum.splits)

lemma back_injectors_from_unknown:
  "(key, val) \<in> set m \<Longrightarrow> x \<in> set val \<Longrightarrow> map_of d x = None \<Longrightarrow>
   back_injectors_from d acc m = Inl KeyError"
proof (induction d acc m rule: back_injectors_from.induct)
  case (1 d acc)
  then show ?case by simp
next
  case (2 d acc key' val' rest)
  show ?case
  proof (cases "(key, val) = (key', val')")
    case True
    with 2 have "lookup_all d val' = Inl KeyError"
      by (auto intro: lookup_all_unknown)
    then show ?thesis by (simp split: option.splits)
  next
    case False
    with "2.prems" have mem: "(key, val) \<in> set rest" by auto
    show ?thesis
    proof (cases "map_of d key'")
      case None
      then show ?thesis by simp
    next
      case (Some k)
      show ?thesis
      proof (cases "lookup_all d val'")
        case (Inl e)
        have "e = KeyError"
          using Inl lookup_all_Inr [of d val'] 
          by (induction val' arbitrary: e) (auto split: option.splits sum.splits)
        with Some Inl show ?thesis by simp
      next
        case (Inr vs)
        with Some "2.IH" [OF Some Inr mem "2.prems"(2,3)] show ?thesis by simp
      qed
    qed
  qed
qed

lemma back_injectors_from_Inr:
  assumes "back_injectors_from d acc m = Inr back"
    and "distinct (map fst m)"
    and "inj_on (map_of d) (fst ` set m)"
  shows "(\<forall>key val. (key, val) \<in> set m \<longrightarrow>
            (\<exists>k vs. map_of d key = Some k \<and> lookup_all d val = Inr vs \<and> map_of back k = Some vs))
       \<and> (\<forall>k. (\<forall>key\<in>fst ` set m. map_of d key \<noteq> Some k) \<longrightarrow> map_of back k = map_of acc k)"
  using assms
proof (induction d acc m rule: back_injectors_from.induct)
  case (1 d acc)
  then show ?case by simp
next
  case (2 d acc key val rest)
  from "2.prems"(1) obtain k vs where k: "map_of d key = Some k"
    and vs: "lookup_all d val = Inr vs"
    and rec: "back_injectors_from d (dict_set acc k vs) rest = Inr back"
    by (auto split: option.splits sum.splits)
  from "2.prems"(2) have dist: "distinct (map fst rest)" and fresh: "key \<notin> fst ` set rest"
    by auto
  from "2.prems"(3) have inj: "inj_on (map_of d) (fst ` set rest)"
    by (auto simp: inj_on_def)
  note IH = "2.IH" [OF k vs rec dist inj]
  have other: "map_of d key' \<noteq> Some k" if "key' \<in> fst ` set rest" for key'
  proof
    assume "map_of d key' = Some k"
    with k have "map_of d key' = map_of d key" by simp
    with "2.prems"(3) that have "key' = key" by (auto simp: inj_on_def)
    with that fresh show False by simp
  qed
  have head: "map_of back k = Some vs"
    using IH other by (simp add: map_of_dict_set)
  show ?case
  proof (intro conjI allI impI)
    fix key' val'
    assume "(key', val') \<in> set ((key, val) # rest)"
    then show "\<exists>k vs. map_of d key' = Some k \<and> lookup_all d val' = Inr vs \<and> map_of back k = Some vs"
      using k vs head IH by auto
  next
    fix k'
    assume a: "\<forall>key\<in>fst ` set ((key, val) # rest). map_of d key \<noteq> Some k'"
    then have "k' \<noteq> k" using k by auto
    moreover from a have "\<forall>key\<in>fst ` set rest. map_of d key \<noteq> Some k'" by auto
    ultimately show "map_of back k' = map_of acc k'"
      using IH by (simp add: map_of_dict_set)
  qed
qed

lemma item_names_inj:
  assumes "distinct (map short_name project_items)"
  shows "inj_on (map_of (item_names project_items)) (name ` set project_items)"
proof (rule inj_onI)
  fix a b
  assume a: "a \<in> name ` set project_items" and b: "b \<in> name ` set project_items"
    and eq: "map_of (item_names project_items) a = map_of (item_names project_items) b"
  from a obtain s where s: "map_of (item_names project_items) a = Some s"
    using item_names_None [of project_items a] by auto
  from item_names_Some [OF s] obtain i where i: "i \<in> set project_items" "name i = a" "short_name i = s"
    by auto
  from s eq have "map_of (item_names project_items) b = Some s" by simp
  from item_names_Some [OF this] obtain j where j: "j \<in> set project_items" "name j = b" "short_name j = s"
    by auto
  from assms have "inj_on short_name (set project_items)"
    by (simp add: distinct_map)
  with i j have "i = j" by (auto simp: inj_on_def)
  with i j show "a = b" by simp
qed

lemma make_pipeline_Inr:
  "make_pipeline valid project_items injectors direction execution_permits = Inr p \<Longrightarrow>
   dependencies p = make_dependencies injectors \<and>
   make_solid_defs project_items injectors direction execution_permits = Inr (solid_defs p)"
  by (auto simp: make_pipeline_def Let_def split: sum.splits if_splits)

lemma SpineEngine_init_Inr:
  assumes "SpineEngine_init valid project_items successors execution_permits = Inr eng"
  shows "\<exists>back bp fp.
           back_injectors project_items successors = Inr back \<and>
           make_pipeline valid project_items back ''backward'' execution_permits = Inr bp \<and>
           make_pipeline valid project_items (inverted back) ''forward'' execution_permits = Inr fp \<and>
           eng = \<lparr>self_backward_pipeline = bp, self_forward_pipeline = fp,
                  self_project_item_lookup = dict_comp short_name (\<lambda>item. item) project_items,
                  self_state = SLEEPING, self_running_item = None\<rparr>"
  using assms by (auto simp: SpineEngine_init_def Let_def split: sum.splits)

section \<open>Facts about the steps of a run\<close>

lemma handle_event_Inr:
  assumes "handle_event self ev = Inr self'"
  shows "self_project_item_lookup self' = self_project_item_lookup self"
    and "self_backward_pipeline self' = self_backward_pipeline self"
    and "self_forward_pipeline self' = self_forward_pipeline self"
    and "self_state self' =
           (if event_type ev = STEP_FAILURE \<and> self_state self \<noteq> USER_STOPPED then FAILED
            else self_state self)"
  using assms by (auto simp: handle_event_def Let_def split: if_splits option.splits)

lemma handle_event_defined:
  "map_of (self_project_item_lookup self) (solid_name ev) \<noteq> None \<Longrightarrow>
   \<exists>self'. handle_event self ev = Inr self'"
  by (auto simp: handle_event_def Let_def)

lemma consume_Inr:
  assumes "consume ty n c = Inr c'"
  shows "handle_event (fst c) \<lparr>event_type = ty, solid_name = n\<rparr> = Inr (fst c')"
    and "snd c' = (snd c)\<lparr>log := log (snd c) @ [Consumed \<lparr>event_type = ty, solid_name = n\<rparr>]\<rparr>"
  using assms by (auto simp: consume_def Let_def split: sum.splits)

lemma consume_defined:
  "map_of (self_project_item_lookup (fst c)) n \<noteq> None \<Longrightarrow> \<exists>c'. consume ty n c = Inr c'"
  using handle_event_defined [of "fst c" "\<lparr>event_type = ty, solid_name = n\<rparr>"]
  by (auto simp: consume_def Let_def)

lemma stop_fields:
  "self_state (fst (stop self env)) = USER_STOPPED"
  "self_project_item_lookup (fst (stop self env)) = self_project_item_lookup self"
  "self_backward_pipeline (fst (stop self env)) = self_backward_pipeline self"
  "self_forward_pipeline (fst (stop self env)) = self_forward_pipeline self"
  "self_running_item (fst (stop self env)) = self_running_item self"
  by (auto simp: stop_def Let_def split: option.splits)

lemma stop_log:
  "\<exists>extra. log (snd (stop self env)) = log env @ extra \<and> item_work extra = [] \<and>
           \<not> stop_called extra \<and> \<not> failure_consumed extra"
  by (auto simp: stop_def Let_def item_work_def stop_called_def failure_consumed_def
      split: option.splits)

lemma other_thread_cases:
  "other_thread stops pt c = c \<or>
   (stops pt \<and> self_state (fst (other_thread stops pt c)) = USER_STOPPED \<and>
    (\<exists>extra. log (snd (other_thread stops pt c)) = log (snd c) @ Stop # extra \<and>
       item_work extra = [] \<and> \<not> failure_consumed extra))"
proof (cases "stops pt")
  case False
  then show ?thesis by (simp add: other_thread_def)
next
  case True
  from stop_log [of "fst c" "(snd c)\<lparr>log := log (snd c) @ [Stop]\<rparr>"]
  obtain extra where "log (snd (stop (fst c) ((snd c)\<lparr>log := log (snd c) @ [Stop]\<rparr>))) =
      log (snd c) @ Stop # extra" "item_work extra = []" "\<not> failure_consumed extra"
    by auto
  with True show ?thesis
    by (auto simp: other_thread_def stop_fields)
qed

lemma other_thread_fields:
  "self_project_item_lookup (fst (other_thread stops pt c)) = self_project_item_lookup (fst c)"
  "self_backward_pipeline (fst (other_thread stops pt c)) = self_backward_pipeline (fst c)"
  "self_forward_pipeline (fst (other_thread stops pt c)) = self_forward_pipeline (fst c)"
  by (auto simp: other_thread_def stop_fields)

lemma compute_fn_log:
  assumes "compute_fn self sd inputs env = (res, env')"
  shows "\<exists>extra. log env' = log env @ extra \<and> item_work extra = extra"
  using assms
  by (auto simp: compute_fn_def yield_output_def Let_def item_work_def
      split: if_splits prod.splits)

lemma run_node_skip:
  assumes "run_node stops p st sd c = Inr (status, c1)"
    and "\<not> list_all (succeeded st) (preds p (sname sd))"
  shows "status = Skipped" and "consume STEP_SKIPPED (sname sd) c = Inr c1"
  using assms by (auto simp: run_node_def Let_def split: sum.splits)

lemma run_node_computed:
  assumes run: "run_node stops p st sd c = Inr (status, c1)"
    and ok: "list_all (succeeded st) (preds p (sname sd))"
  shows "\<exists>cb res env3.
    consume STEP_START (sname sd) (other_thread stops (BeforeStart (pipeline_name p) (sname sd)) c) = Inr cb \<and>
    compute_fn (fst (other_thread stops (BeforeCompute (pipeline_name p) (sname sd)) cb)) sd
       (gather_inputs p st (sname sd))
       (snd (other_thread stops (BeforeCompute (pipeline_name p) (sname sd)) cb)) = (res, env3) \<and>
    (case res of
       Failure \<Rightarrow> status = NodeFailed \<and>
         consume STEP_FAILURE (sname sd)
           (other_thread stops (AfterCompute (pipeline_name p) (sname sd))
              (fst (other_thread stops (BeforeCompute (pipeline_name p) (sname sd)) cb), env3)) = Inr c1
     | Output rs \<Rightarrow> status = Succeeded rs \<and>
         (\<exists>ce. consume STEP_OUTPUT (sname sd)
           (other_thread stops (AfterCompute (pipeline_name p) (sname sd))
              (fst (other_thread stops (BeforeCompute (pipeline_name p) (sname sd)) cb), env3)) = Inr ce \<and>
           consume STEP_SUCCESS (sname sd) ce = Inr c1))"
proof -
  let ?pn = "pipeline_name p" and ?n = "sname sd"
  obtain cb where cb: "consume STEP_START ?n (other_thread stops (BeforeStart ?pn ?n) c) = Inr cb"
    using run ok
    by (cases "consume STEP_START ?n (other_thread stops (BeforeStart ?pn ?n) c)")
       (auto simp: run_node_def Let_def)
  obtain res env3 where comp:
    "compute_fn (fst (other_thread stops (BeforeCompute ?pn ?n) cb)) sd (gather_inputs p st ?n)
       (snd (other_thread stops (BeforeCompute ?pn ?n) cb)) = (res, env3)"
    by (cases "compute_fn (fst (other_thread stops (BeforeCompute ?pn ?n) cb)) sd
        (gather_inputs p st ?n) (snd (other_thread stops (BeforeCompute ?pn ?n) cb))")
  from run ok cb comp have
    "case res of
       Failure \<Rightarrow> status = NodeFailed \<and>
         consume STEP_FAILURE ?n
           (other_thread stops (AfterCompute ?pn ?n)
              (fst (other_thread stops (BeforeCompute ?pn ?n) cb), env3)) = Inr c1
     | Output rs \<Rightarrow> status = Succeeded rs \<and>
         (\<exists>ce. consume STEP_OUTPUT ?n
           (other_thread stops (AfterCompute ?pn ?n)
              (fst (other_thread stops (BeforeCompute ?pn ?n) cb), env3)) = Inr ce \<and>
           consume STEP_SUCCESS ?n ce = Inr c1)"
    by (cases res) (auto simp: run_node_def Let_def split: sum.splits)
  with cb comp show ?thesis by blast
qed

lemma run_node_micro:
  assumes "run_node stops p st sd c = Inr (status, c1)"
  shows "micro_step\<^sup>*\<^sup>* c c1"
proof (cases "list_all (succeeded st) (preds p (sname sd))")
  case False
  from run_node_skip(2) [OF assms False] show ?thesis
    by (auto intro: micro_step.event)
next
  case True
  let ?pn = "pipeline_name p" and ?n = "sname sd"
  from run_node_computed [OF assms True] obtain cb res env3 where
    start: "consume STEP_START ?n (other_thread stops (BeforeStart ?pn ?n) c) = Inr cb"
    and comp: "compute_fn (fst (other_thread stops (BeforeCompute ?pn ?n) cb)) sd
       (gather_inputs p st ?n) (snd (other_thread stops (BeforeCompute ?pn ?n) cb)) = (res, env3)"
    and fin: "case res of
       Failure \<Rightarrow> status = NodeFailed \<and>
         consume STEP_FAILURE ?n
           (other_thread stops (AfterCompute ?pn ?n)
              (fst (other_thread stops (BeforeCompute ?pn ?n) cb), env3)) = Inr c1
     | Output rs \<Rightarrow> status = Succeeded rs \<and>
         (\<exists>ce. consume STEP_OUTPUT ?n
           (other_thread stops (AfterCompute ?pn ?n)
              (fst (other_thread stops (BeforeCompute ?pn ?n) cb), env3)) = Inr ce \<and>
           consume STEP_SUCCESS ?n ce = Inr c1)"
    by blast
  let ?ca = "other_thread stops (BeforeStart ?pn ?n) c"
  let ?cc = "other_thread stops (BeforeCompute ?pn ?n) cb"
  let ?cd = "other_thread stops (AfterCompute ?pn ?n) (fst ?cc, env3)"
  have 1: "micro_step c ?ca" by (rule micro_step.thread)
  have 2: "micro_step ?ca cb" using start by (rule micro_step.event)
  have 3: "micro_step cb ?cc" by (rule micro_step.thread)
  have 4: "micro_step ?cc (fst ?cc, env3)" using comp by (rule micro_step.compute)
  have 5: "micro_step (fst ?cc, env3) ?cd" by (rule micro_step.thread)
  have upto: "micro_step\<^sup>*\<^sup>* c ?cd"
    using 1 2 3 4 5 by (meson rtranclp.rtrancl_into_rtrancl rtranclp.rtrancl_refl)
  show ?thesis
  proof (cases res)
    case Failure
    with fin have "micro_step ?cd c1" by (auto intro: micro_step.event)
    with upto show ?thesis by (rule rtranclp.rtrancl_into_rtrancl)
  next
    case (Output rs)
    with fin obtain ce where "consume STEP_OUTPUT ?n ?cd = Inr ce" "consume STEP_SUCCESS ?n ce = Inr c1"
      by auto
    then have "micro_step ?cd ce" "micro_step ce c1" by (auto intro: micro_step.event)
    with upto show ?thesis
      by (meson rtranclp.rtrancl_into_rtrancl)
  qed
qed

lemma pass_induct:
  assumes "execute_pipeline_iterator stops p st c = Inr (st', c')"
    and "P st c"
    and "\<And>st c sd status c1. P st c \<Longrightarrow> find (ready p st) (solid_defs p) = Some sd \<Longrightarrow>
           run_node stops p st sd c = Inr (status, c1) \<Longrightarrow> P (dict_set st (sname sd) status) c1"
  shows "P st' c'"
  using assms
proof (induction stops p st c rule: execute_pipeline_iterator.induct)
  case (1 stops p st c)
  show ?case
  proof (cases "find (ready p st) (solid_defs p)")
    case None
    with "1.prems"(1,2) show ?thesis
      by (simp add: execute_pipeline_iterator.simps)
  next
    case (Some sd)
    with "1.prems"(1) obtain status c1 where
      node: "run_node stops p st sd c = Inr (status, c1)"
      and rest: "execute_pipeline_iterator stops p (dict_set st (sname sd) status) c1 = Inr (st', c')"
      by (auto simp: execute_pipeline_iterator.simps [of stops p st c] split: sum.splits)
    have "P (dict_set st (sname sd) status) c1"
      using "1.prems"(3) [OF "1.prems"(2) Some node] .
    then show ?thesis
      using "1.IH" [OF Some node refl rest] "1.prems"(3) by blast
  qed
qed

lemma pass_micro:
  assumes "execute_pipeline_iterator stops p st c = Inr (st', c')"
  shows "micro_step\<^sup>*\<^sup>* c c'"
proof -
  have "micro_step\<^sup>*\<^sup>* c c'"
    using assms
  proof (rule pass_induct [where P = "\<lambda>st x. micro_step\<^sup>*\<^sup>* c x"])
    show "micro_step\<^sup>*\<^sup>* c c" by simp
  next
    fix st x sd status c1
    assume "micro_step\<^sup>*\<^sup>* c x" and "run_node stops p st sd x = Inr (status, c1)"
    then show "micro_step\<^sup>*\<^sup>* c c1"
      by (meson run_node_micro rtranclp_trans)
  qed
  then show ?thesis .
qed

section \<open>What a run preserves\<close>

lemma item_work_append [simp]: "item_work (a @ b) = item_work a @ item_work b"
  by (simp add: item_work_def)

lemma stop_called_append [simp]: "stop_called (a @ b) \<longleftrightarrow> stop_called a \<or> stop_called b"
  by (simp add: stop_called_def)

lemma failure_consumed_append [simp]:
  "failure_consumed (a @ b) \<longleftrightarrow> failure_consumed a \<or> failure_consumed b"
  by (simp add: failure_consumed_def)

lemma item_work_only:
  assumes "item_work l = l"
  shows "\<not> stop_called l" and "\<not> failure_consumed l"
proof -
  from assms have all: "\<forall>a\<in>set l. case a of Execute n ins d \<Rightarrow> True | OutputResources n d \<Rightarrow> True | _ \<Rightarrow> False"
    by (simp add: item_work_def filter_id_conv)
  show "\<not> stop_called l"
    using all by (auto simp: stop_called_def list_ex_iff split: action.splits)
  show "\<not> failure_consumed l"
    using all by (auto simp: failure_consumed_def list_ex_iff split: action.splits)
qed

text \<open>The attributes a run never assigns.\<close>

lemma micro_step_fields:
  assumes "micro_step c c'"
  shows "self_project_item_lookup (fst c') = self_project_item_lookup (fst c) \<and>
         self_backward_pipeline (fst c') = self_backward_pipeline (fst c) \<and>
         self_forward_pipeline (fst c') = self_forward_pipeline (fst c)"
  using assms
proof cases
  case (thread stops pt)
  then show ?thesis by (simp add: other_thread_fields)
next
  case (event ty n)
  from consume_Inr(1) [OF event(1)] show ?thesis
    by (simp add: handle_event_Inr)
next
  case (compute sd inputs res env')
  then show ?thesis by simp
qed

lemma micro_steps_fields:
  assumes "micro_step\<^sup>*\<^sup>* c c'"
  shows "self_project_item_lookup (fst c') = self_project_item_lookup (fst c) \<and>
         self_backward_pipeline (fst c') = self_backward_pipeline (fst c) \<and>
         self_forward_pipeline (fst c') = self_forward_pipeline (fst c)"
  using assms
  by (induction rule: rtranclp_induct) (auto dest: micro_step_fields)

text \<open>The state of the loop follows from what it consumed and from the stops.\<close>

lemma micro_step_loop_state:
  assumes "micro_step c c'"
    and "log (snd c) = base @ new" and "self_state (fst c) = loop_state new"
  shows "\<exists>new'. log (snd c') = base @ new' \<and> self_state (fst c') = loop_state new'"
  using assms(1)
proof cases
  case (thread stops pt)
  from other_thread_cases [of stops pt c] show ?thesis
  proof
    assume "other_thread stops pt c = c"
    with thread assms(2,3) show ?thesis by auto
  next
    assume "stops pt \<and> self_state (fst (other_thread stops pt c)) = USER_STOPPED \<and>
      (\<exists>extra. log (snd (other_thread stops pt c)) = log (snd c) @ Stop # extra \<and>
         item_work extra = [] \<and> \<not> failure_consumed extra)"
    then obtain extra where st: "self_state (fst c') = USER_STOPPED"
      and lg: "log (snd c') = log (snd c) @ Stop # extra"
      using thread by auto
    have "stop_called (new @ Stop # extra)"
      by (simp add: stop_called_def)
    with st lg assms(2) show ?thesis
      by (intro exI [of _ "new @ Stop # extra"]) (simp add: loop_state_def)
  qed
next
  case (event ty n)
  let ?ev = "\<lparr>event_type = ty, solid_name = n\<rparr>"
  from consume_Inr [OF event(1)]
  have h: "handle_event (fst c) ?ev = Inr (fst c')"
    and lg: "log (snd c') = log (snd c) @ [Consumed ?ev]"
    by simp_all
  have fc: "failure_consumed [Consumed ?ev :: 'a action] \<longleftrightarrow> ty = STEP_FAILURE"
    by (simp add: failure_consumed_def)
  have sc: "\<not> stop_called [Consumed ?ev :: 'a action]"
    by (simp add: stop_called_def)
  from handle_event_Inr(4) [OF h] assms(3)
  have "self_state (fst c') = loop_state (new @ [Consumed ?ev])"
    by (auto simp: loop_state_def fc sc)
  with lg assms(2) show ?thesis
    by (intro exI [of _ "new @ [Consumed ?ev]"]) simp
next
  case (compute sd inputs res env')
  from compute_fn_log [OF compute(2)] obtain extra where
    lg: "log env' = log (snd c) @ extra" and w: "item_work extra = extra"
    by auto
  from item_work_only [OF w] assms(3) compute(1)
  have "self_state (fst c') = loop_state (new @ extra)"
    by (simp add: loop_state_def)
  with lg assms(2) compute(1) show ?thesis
    by (intro exI [of _ "new @ extra"]) simp
qed

lemma micro_steps_loop_state:
  assumes "micro_step\<^sup>*\<^sup>* c c'"
    and "log (snd c) = base @ new" and "self_state (fst c) = loop_state new"
  shows "\<exists>new'. log (snd c') = base @ new' \<and> self_state (fst c') = loop_state new'"
  using assms
proof (induction rule: rtranclp_induct)
  case base
  then show ?case by blast
next
  case (step y z)
  from step.IH [OF step.prems] obtain new' where
    "log (snd y) = base @ new'" "self_state (fst y) = loop_state new'" by blast
  with step.hyps(2) show ?case by (rule micro_step_loop_state)
qed

text \<open>Once the state is \<open>USER_STOPPED\<close> or \<open>FAILED\<close>, no item is executed or asked for its
  output any more.\<close>

lemma micro_step_doomed:
  assumes "micro_step c c'"
    and "self_state (fst c) = USER_STOPPED \<or> self_state (fst c) = FAILED"
  shows "(self_state (fst c') = USER_STOPPED \<or> self_state (fst c') = FAILED) \<and>
         item_work (log (snd c')) = item_work (log (snd c)) \<and>
         (self_state (fst c) = USER_STOPPED \<longrightarrow> self_state (fst c') = USER_STOPPED)"
  using assms(1)
proof cases
  case (thread stops pt)
  from other_thread_cases [of stops pt c] show ?thesis
  proof
    assume "other_thread stops pt c = c"
    with thread assms(2) show ?thesis by auto
  next
    assume "stops pt \<and> self_state (fst (other_thread stops pt c)) = USER_STOPPED \<and>
      (\<exists>extra. log (snd (other_thread stops pt c)) = log (snd c) @ Stop # extra \<and>
         item_work extra = [] \<and> \<not> failure_consumed extra)"
    then obtain extra where "self_state (fst c') = USER_STOPPED"
      and "log (snd c') = log (snd c) @ Stop # extra" and "item_work extra = []"
      using thread by auto
    moreover have "item_work (Stop # extra) = item_work extra"
      by (simp add: item_work_def)
    ultimately show ?thesis by simp
  qed
next
  case (event ty n)
  let ?ev = "\<lparr>event_type = ty, solid_name = n\<rparr>"
  from consume_Inr [OF event(1)]
  have h: "handle_event (fst c) ?ev = Inr (fst c')"
    and lg: "log (snd c') = log (snd c) @ [Consumed ?ev]"
    by simp_all
  have "item_work [Consumed ?ev :: 'a action] = []"
    by (simp add: item_work_def)
  with handle_event_Inr(4) [OF h] lg assms(2) show ?thesis
    by auto
next
  case (compute sd inputs res env')
  from assms(2) have "compute_fn (fst c) sd inputs (snd c) = (Failure, snd c)"
    by (auto simp: compute_fn_def state_def)
  with compute assms(2) show ?thesis by auto
qed

lemma micro_steps_doomed:
  assumes "micro_step\<^sup>*\<^sup>* c c'"
    and "self_state (fst c) = USER_STOPPED \<or> self_state (fst c) = FAILED"
  shows "(self_state (fst c') = USER_STOPPED \<or> self_state (fst c') = FAILED) \<and>
         item_work (log (snd c')) = item_work (log (snd c)) \<and>
         (self_state (fst c) = USER_STOPPED \<longrightarrow> self_state (fst c') = USER_STOPPED)"
  using assms
proof (induction rule: rtranclp_induct)
  case base
  then show ?case by simp
next
  case (step y z)
  from step.IH [OF step.prems] micro_step_doomed [OF step.hyps(2)] show ?case
    by auto
qed

section \<open>The injector maps\<close>

text \<open>
  Claim C8, as the specification states it: for every successor map, inverting twice
  returns the original map. It fails: a key with an empty list is lost (and the order
  inside a list can change). Here item b has no successor, and its key is gone after two
  inversions.
\<close>

theorem inverted_twice_counterexample:
  "\<not> dict_eq (inverted (inverted successors_ab)) successors_ab"
  by (simp add: dict_eq_def inverted_def dict_keys_def successors_ab_def)

text \<open>
  Claim C8, amended: inverting twice keeps the edges. Under every key the list after two
  inversions has the same elements, each as many times, as the list of the original map
  (an absent key read as the empty list), and the keys left are the keys of the original
  map whose list is not empty.
\<close>

theorem inverted_twice_edges:
  assumes "distinct (dict_keys m)"
  shows "mset (entries (inverted (inverted m)) k) = mset (entries m k) \<and>
         set (dict_keys (inverted (inverted m))) = {k \<in> set (dict_keys m). entries m k \<noteq> []}"
proof -
  have cnt: "count_list (entries (inverted (inverted m)) k) v = count_list (entries m k) v" for k v
    using count_entries_inverted [OF distinct_inverted, of m k v]
      count_entries_inverted [OF assms, of v k]
    by simp
  have ms: "mset (entries (inverted (inverted m)) k) = mset (entries m k)" for k
    by (rule multiset_eqI) (simp add: cnt count_mset)
  have ne: "entries (inverted (inverted m)) k \<noteq> [] \<longleftrightarrow> entries m k \<noteq> []" for k
    using ms [of k] by (metis mset_zero_iff)
  have in_keys: "entries m k \<noteq> [] \<Longrightarrow> k \<in> set (dict_keys m)" for k
    by (auto simp: entries_def dict_keys_def split: option.splits dest: map_of_SomeD
        intro: rev_image_eqI)
  have "set (dict_keys (inverted (inverted m))) = {k \<in> set (dict_keys m). entries m k \<noteq> []}"
    using keys_iff_entries [OF nonempty_inverted, of _ "inverted m"] ne in_keys
    by auto
  with ms show ?thesis by simp
qed

theorem inverted_twice_edges_witness:
  "distinct (dict_keys successors_ab) \<and>
   mset (entries (inverted (inverted successors_ab)) ''item a'') = mset [''item b''] \<and>
   set (dict_keys (inverted (inverted successors_ab))) = {''item a''}"
proof -
  have d: "distinct (dict_keys successors_ab)"
    by (simp add: successors_ab_def dict_keys_def)
  have e: "entries successors_ab ''item a'' = [''item b'']"
    by (simp add: successors_ab_def entries_def)
  have k: "{k \<in> set (dict_keys successors_ab). entries successors_ab k \<noteq> []} = {''item a''}"
    by (auto simp: successors_ab_def dict_keys_def entries_def)
  from inverted_twice_edges [OF d, of "''item a''"] d e k show ?thesis
    by simp
qed

text \<open>
  Claim C9: if a name in a successor list is not the name of a known item, the
  construction of the engine fails with an error (the \<open>KeyError\<close> of the subscript
  \<open>d[x]\<close>); no engine is returned, so nothing can be run.
\<close>

theorem unknown_successor_fails:
  assumes "(key, val) \<in> set successors" and "x \<in> set val"
    and "x \<notin> name ` set project_items"
  shows "SpineEngine_init valid project_items successors execution_permits = Inl KeyError"
proof -
  from assms(3) have "map_of (item_names project_items) x = None"
    by (simp add: item_names_None)
  with assms(1,2) have "back_injectors project_items successors = Inl KeyError"
    unfolding back_injectors_def by (rule back_injectors_from_unknown)
  then show ?thesis
    by (simp add: SpineEngine_init_def)
qed

theorem unknown_successor_fails_witness:
  "(''item a'', [''item c'']) \<in> set [(''item a'', [''item c''])] \<and>
   ''item c'' \<in> set [''item c''] \<and>
   ''item c'' \<notin> name ` set items_ab \<and>
   SpineEngine_init (\<lambda>p. True) items_ab [(''item a'', [''item c''])] permits_ab = Inl KeyError"
proof -
  have 1: "(''item a'', [''item c'']) \<in> set [(''item a'', [''item c''])]" by simp
  have 2: "''item c'' \<in> set [''item c'']" by simp
  have 3: "''item c'' \<notin> name ` set items_ab"
    by (simp add: items_ab_def example_item_def)
  from unknown_successor_fails [OF 1 2 3] 1 2 3 show ?thesis by blast
qed

lemma dict_keys_dict_set:
  "dict_keys (dict_set d k v) =
     (if k \<in> set (dict_keys d) then dict_keys d else dict_keys d @ [k])"
  by (induction d) (force simp: dict_keys_def)+

lemma distinct_dict_set: "distinct (dict_keys d) \<Longrightarrow> distinct (dict_keys (dict_set d k v))"
  by (simp add: dict_keys_dict_set)

lemma back_injectors_from_distinct:
  "back_injectors_from d acc m = Inr back \<Longrightarrow> distinct (dict_keys acc) \<Longrightarrow>
   distinct (dict_keys back)"
proof (induction d acc m rule: back_injectors_from.induct)
  case (1 d acc)
  then show ?case by simp
next
  case (2 d acc key val rest)
  then show ?case
    by (auto split: option.splits sum.splits intro: distinct_dict_set)
qed

lemma back_injectors_from_known:
  "back_injectors_from d acc m = Inr back \<Longrightarrow> key \<in> fst ` set m \<Longrightarrow> map_of d key \<noteq> None"
proof (induction d acc m rule: back_injectors_from.induct)
  case (1 d acc)
  then show ?case by simp
next
  case (2 d acc key' val rest)
  then show ?case
    by (auto split: option.splits sum.splits)
qed

text \<open>
  Claim C6: at construction, with item names and short names unique, the backward
  injector map holds under the short name of every item with an entry in the successor
  mapping the short names of its successors, in order, and has no other key; the forward
  injector map is the exact inverse relation of the backward one; and the two pipelines
  take their dependencies from these two maps.
\<close>

theorem injector_maps:
  assumes init: "SpineEngine_init valid project_items successors execution_permits = Inr eng"
    and names: "distinct (map name project_items)"
    and shorts: "distinct (map short_name project_items)"
    and keys: "distinct (dict_keys successors)"
  shows "\<exists>back.
     back_injectors project_items successors = Inr back \<and>
     dependencies (self_backward_pipeline eng) = make_dependencies back \<and>
     dependencies (self_forward_pipeline eng) = make_dependencies (inverted back) \<and>
     (\<forall>item succs. item \<in> set project_items \<longrightarrow> map_of successors (name item) = Some succs \<longrightarrow>
        (\<exists>shs. map_of back (short_name item) = Some shs \<and>
           list_all2 (\<lambda>s sh. \<exists>i\<in>set project_items. name i = s \<and> short_name i = sh) succs shs)) \<and>
     set (dict_keys back) =
       short_name ` {i \<in> set project_items. name i \<in> set (dict_keys successors)} \<and>
     (\<forall>a b. a \<in> set (entries (inverted back) b) \<longleftrightarrow> b \<in> set (entries back a))"
proof -
  let ?d = "item_names project_items"
  from SpineEngine_init_Inr [OF init] obtain binj bp fp where
    bk: "back_injectors project_items successors = Inr binj"
    and bp: "make_pipeline valid project_items binj ''backward'' execution_permits = Inr bp"
    and fp: "make_pipeline valid project_items (inverted binj) ''forward'' execution_permits = Inr fp"
    and eng: "eng = \<lparr>self_backward_pipeline = bp, self_forward_pipeline = fp,
                  self_project_item_lookup = dict_comp short_name (\<lambda>item. item) project_items,
                  self_state = SLEEPING, self_running_item = None\<rparr>"
    by blast
  from bk have bif: "back_injectors_from ?d [] successors = Inr binj"
    by (simp add: back_injectors_def)
  have known: "fst ` set successors \<subseteq> name ` set project_items"
  proof
    fix key assume "key \<in> fst ` set successors"
    from back_injectors_from_known [OF bif this] show "key \<in> name ` set project_items"
      by (simp add: item_names_None)
  qed
  have inj: "inj_on (map_of ?d) (fst ` set successors)"
    using item_names_inj [OF shorts] known by (rule inj_on_subset)
  from keys have dist: "distinct (map fst successors)"
    by (simp add: dict_keys_def)
  note char = back_injectors_from_Inr [OF bif dist inj]
  have deps: "dependencies (self_backward_pipeline eng) = make_dependencies binj"
    "dependencies (self_forward_pipeline eng) = make_dependencies (inverted binj)"
    using make_pipeline_Inr [OF bp] make_pipeline_Inr [OF fp] by (simp_all add: eng)
  have lists: "\<exists>shs. map_of binj (short_name item) = Some shs \<and>
      list_all2 (\<lambda>s sh. \<exists>i\<in>set project_items. name i = s \<and> short_name i = sh) succs shs"
    if item: "item \<in> set project_items" and succs: "map_of successors (name item) = Some succs"
    for item succs
  proof -
    from succs have "(name item, succs) \<in> set successors" by (rule map_of_SomeD)
    with char obtain k vs where k: "map_of ?d (name item) = Some k"
      and vs: "lookup_all ?d succs = Inr vs" and b: "map_of binj k = Some vs"
      by blast
    from item_names_of_item [OF names item] k have "k = short_name item" by simp
    moreover from lookup_all_Inr [OF vs]
    have "list_all2 (\<lambda>s sh. \<exists>i\<in>set project_items. name i = s \<and> short_name i = sh) succs vs"
      by (rule list_all2_mono) (auto dest: item_names_Some)
    ultimately show ?thesis using b by blast
  qed
  have keyset: "set (dict_keys binj) =
      short_name ` {i \<in> set project_items. name i \<in> set (dict_keys successors)}"
  proof (intro set_eqI iffI)
    fix k assume "k \<in> set (dict_keys binj)"
    then have some: "map_of binj k \<noteq> None"
      by (simp add: dict_keys_def map_of_eq_None_iff)
    have "\<exists>key\<in>fst ` set successors. map_of ?d key = Some k"
    proof (rule ccontr)
      assume "\<not> (\<exists>key\<in>fst ` set successors. map_of ?d key = Some k)"
      with char have "map_of binj k = map_of [] k" by blast
      with some show False by simp
    qed
    then obtain key where key: "key \<in> fst ` set successors" "map_of ?d key = Some k" by blast
    from item_names_Some [OF key(2)] obtain i where
      "i \<in> set project_items" "name i = key" "short_name i = k" by blast
    with key(1) show "k \<in> short_name ` {i \<in> set project_items. name i \<in> set (dict_keys successors)}"
      by (auto simp: dict_keys_def)
  next
    fix k assume "k \<in> short_name ` {i \<in> set project_items. name i \<in> set (dict_keys successors)}"
    then obtain i where i: "i \<in> set project_items" "name i \<in> set (dict_keys successors)"
      "k = short_name i" by blast
    from i(2) obtain succs where "map_of successors (name i) = Some succs"
      by (auto simp: dict_keys_def dest: weak_map_of_SomeI)
    from lists [OF i(1) this] i(3) show "k \<in> set (dict_keys binj)"
      by (auto simp: dict_keys_def dest: map_of_SomeD intro: rev_image_eqI)
  qed
  have "distinct (dict_keys binj)"
    using back_injectors_from_distinct [OF bif] by (simp add: dict_keys_def)
  then have inv: "\<forall>a b. a \<in> set (entries (inverted binj) b) \<longleftrightarrow> b \<in> set (entries binj a)"
    by (simp add: set_entries_inverted)
  from bk deps lists keyset inv show ?thesis by blast
qed

theorem injector_maps_witness:
  "\<exists>eng binj.
     SpineEngine_init (\<lambda>p. True) items_ab successors_ab permits_ab = Inr eng \<and>
     distinct (map name items_ab) \<and> distinct (map short_name items_ab) \<and>
     distinct (dict_keys successors_ab) \<and>
     back_injectors items_ab successors_ab = Inr binj \<and>
     map_of binj ''a'' = Some [''b''] \<and> map_of binj ''b'' = Some [] \<and>
     entries (inverted binj) ''b'' = [''a''] \<and>
     dependencies (self_backward_pipeline eng) = make_dependencies binj \<and>
     dependencies (self_forward_pipeline eng) = make_dependencies (inverted binj)"
proof -
  obtain eng where init: "SpineEngine_init (\<lambda>p. True) items_ab successors_ab permits_ab = Inr eng"
    by (simp add: SpineEngine_init_def back_injectors_def item_names_def dict_comp_def items_ab_def
      successors_ab_def permits_ab_def example_item_def make_pipeline_def Let_def)
  have d1: "distinct (map name items_ab)" and d2: "distinct (map short_name items_ab)"
    by (simp_all add: items_ab_def example_item_def)
  have d3: "distinct (dict_keys successors_ab)"
    by (simp add: successors_ab_def dict_keys_def)
  have b: "back_injectors items_ab successors_ab = Inr [(''a'', [''b'']), (''b'', [])]"
    by (simp add: back_injectors_def item_names_def dict_comp_def items_ab_def
      successors_ab_def example_item_def)
  have i: "entries (inverted [(''a'', [''b'']), (''b'', [])]) ''b'' = [''a'']"
    by (simp add: inverted_def entries_def)
  from injector_maps [OF init d1 d2 d3] b
  have "dependencies (self_backward_pipeline eng) = make_dependencies [(''a'', [''b'']), (''b'', [])]"
    and "dependencies (self_forward_pipeline eng) =
      make_dependencies (inverted [(''a'', [''b'']), (''b'', [])])"
    by auto
  with init d1 d2 d3 b i show ?thesis
    by (intro exI [of _ eng] exI [of _ "[(''a'', [''b'']), (''b'', [])]"]) auto
qed

section \<open>The state machine\<close>


text \<open>
  Claim C7, as the specification states it: once the state is terminal, \<open>stop()\<close> does not
  change it. It fails: the small workflow runs to \<open>COMPLETED\<close>, and a \<open>stop()\<close> after
  that sets \<open>USER_STOPPED\<close>.
\<close>

theorem stop_after_completed_counterexample:
  "state_after run_ab = Some COMPLETED \<and> state_after (stop_after run_ab) = Some USER_STOPPED"
  by code_simp

text \<open>
  Claim C7, amended: \<open>stop()\<close> sets the state to \<open>USER_STOPPED\<close> whatever it was, so it
  leaves \<open>USER_STOPPED\<close> as it is and replaces \<open>FAILED\<close> and \<open>COMPLETED\<close>; a second
  \<open>stop()\<close> leaves the engine as the first one left it, and \<open>state()\<close> returns
  \<open>USER_STOPPED\<close> after each of them.
\<close>

theorem stop_sets_user_stopped:
  "state (fst (stop self env)) = USER_STOPPED \<and>
   fst (stop (fst (stop self env)) env') = fst (stop self env) \<and>
   state (fst (stop (fst (stop self env)) env')) = USER_STOPPED"
proof -
  have once: "fst (stop s e) = s\<lparr>self_state := USER_STOPPED\<rparr>"
    for s :: "('a, 'b) SpineEngine" and e
    by (simp add: stop_def Let_def split: option.splits)
  show ?thesis
    by (simp add: once state_def)
qed

text \<open>\<open>run\<close> never reads the state it replaces.\<close>

lemma run_prior_state_irrelevant:
  "run stops (self\<lparr>self_state := s\<rparr>) env = run stops self env \<and>
   run stops (fst (stop self env')) env = run stops self env"
proof -
  have "run stops (self\<lparr>self_state := s\<rparr>) env = run stops self env" for s
    by (simp add: run_def)
  moreover have "fst (stop self env') = self\<lparr>self_state := USER_STOPPED\<rparr>"
    by (simp add: stop_def Let_def split: option.splits)
  ultimately show ?thesis by simp
qed

section \<open>A constructed engine runs to the end\<close>

lemma run_node_defined:
  assumes "map_of (self_project_item_lookup (fst c)) (sname sd) \<noteq> None"
  shows "\<exists>status c1. run_node stops p st sd c = Inr (status, c1)"
proof -
  let ?pn = "pipeline_name p" and ?n = "sname sd"
  let ?L = "self_project_item_lookup (fst c)"
  have step: "\<exists>c'. consume ty ?n x = Inr c'" if "self_project_item_lookup (fst x) = ?L" for ty x
  proof -
    from assms that have "map_of (self_project_item_lookup (fst x)) ?n \<noteq> None" by simp
    then show ?thesis by (rule consume_defined)
  qed
  have keep: "self_project_item_lookup (fst c') = self_project_item_lookup (fst x)"
    if "consume ty ?n x = Inr c'" for ty x c'
    using consume_Inr(1) [OF that] by (simp add: handle_event_Inr)
  show ?thesis
  proof (cases "list_all (succeeded st) (preds p ?n)")
    case False
    from step [of c STEP_SKIPPED] obtain c1 where "consume STEP_SKIPPED ?n c = Inr c1" by auto
    with False show ?thesis by (simp add: run_node_def)
  next
    case True
    let ?ca = "other_thread stops (BeforeStart ?pn ?n) c"
    from step [of ?ca STEP_START] obtain cb where cb: "consume STEP_START ?n ?ca = Inr cb"
      by (auto simp: other_thread_fields)
    have Lb: "self_project_item_lookup (fst cb) = ?L"
      using keep [OF cb] by (simp add: other_thread_fields)
    let ?cc = "other_thread stops (BeforeCompute ?pn ?n) cb"
    obtain res env3 where comp:
      "compute_fn (fst ?cc) sd (gather_inputs p st ?n) (snd ?cc) = (res, env3)"
      by (cases "compute_fn (fst ?cc) sd (gather_inputs p st ?n) (snd ?cc)")
    let ?cd = "other_thread stops (AfterCompute ?pn ?n) (fst ?cc, env3)"
    have Ld: "self_project_item_lookup (fst ?cd) = ?L"
      using Lb by (simp add: other_thread_fields)
    show ?thesis
    proof (cases res)
      case Failure
      from step [OF Ld, of STEP_FAILURE] obtain c1 where "consume STEP_FAILURE ?n ?cd = Inr c1"
        by auto
      with True cb comp Failure show ?thesis
        by (simp add: run_node_def Let_def)
    next
      case (Output rs)
      from step [OF Ld, of STEP_OUTPUT] obtain ce where ce: "consume STEP_OUTPUT ?n ?cd = Inr ce"
        by auto
      from keep [OF ce] Ld have "self_project_item_lookup (fst ce) = ?L" by simp
      from step [OF this, of STEP_SUCCESS] obtain c1 where "consume STEP_SUCCESS ?n ce = Inr c1"
        by auto
      with True cb comp Output ce show ?thesis
        by (simp add: run_node_def Let_def)
    qed
  qed
qed

lemma pass_defined:
  assumes "\<forall>sd\<in>set (solid_defs p). map_of (self_project_item_lookup (fst c)) (sname sd) \<noteq> None"
  shows "\<exists>st' c'. execute_pipeline_iterator stops p st c = Inr (st', c')"
  using assms
proof (induction stops p st c rule: execute_pipeline_iterator.induct)
  case (1 stops p st c)
  show ?case
  proof (cases "find (ready p st) (solid_defs p)")
    case None
    then show ?thesis by (simp add: execute_pipeline_iterator.simps)
  next
    case (Some sd)
    then have mem: "sd \<in> set (solid_defs p)"
      by (auto simp: find_Some_iff)
    with "1.prems" have "map_of (self_project_item_lookup (fst c)) (sname sd) \<noteq> None" by blast
    from run_node_defined [OF this] obtain status c1 where
      node: "run_node stops p st sd c = Inr (status, c1)" by blast
    from micro_steps_fields [OF run_node_micro [OF node]] "1.prems"
    have "\<forall>sd\<in>set (solid_defs p). map_of (self_project_item_lookup (fst c1)) (sname sd) \<noteq> None"
      by simp
    from "1.IH" [OF Some node refl this] Some node show ?thesis
      by (simp add: execute_pipeline_iterator.simps [of stops p st c])
  qed
qed

lemma make_solid_defs_names:
  "make_solid_defs project_items injectors direction execution_permits = Inr sds \<Longrightarrow>
   map sname sds = map short_name project_items"
  by (induction project_items arbitrary: sds)
     (auto simp: make_solid_def_def split: option.splits sum.splits)

lemma lookup_knows_items:
  "map_of (dict_comp short_name (\<lambda>item. item) project_items) k \<noteq> None \<longleftrightarrow>
     k \<in> short_name ` set project_items"
  by (simp add: dict_comp_def map_of_comp_loop_None)

lemma init_knows_solids:
  assumes "SpineEngine_init valid project_items successors execution_permits = Inr eng"
  shows "\<forall>sd\<in>set (solid_defs (self_backward_pipeline eng)).
           map_of (self_project_item_lookup eng) (sname sd) \<noteq> None"
    and "\<forall>sd\<in>set (solid_defs (self_forward_pipeline eng)).
           map_of (self_project_item_lookup eng) (sname sd) \<noteq> None"
proof -
  from SpineEngine_init_Inr [OF assms] obtain binj bp fp where
    bp: "make_pipeline valid project_items binj ''backward'' execution_permits = Inr bp"
    and fp: "make_pipeline valid project_items (inverted binj) ''forward'' execution_permits = Inr fp"
    and eng: "eng = \<lparr>self_backward_pipeline = bp, self_forward_pipeline = fp,
                  self_project_item_lookup = dict_comp short_name (\<lambda>item. item) project_items,
                  self_state = SLEEPING, self_running_item = None\<rparr>"
    by blast
  have names: "sname ` set (solid_defs q) = short_name ` set project_items"
    if "make_pipeline valid project_items inj direction execution_permits = Inr q" for q inj direction
    using make_solid_defs_names [of project_items inj direction execution_permits "solid_defs q"]
      make_pipeline_Inr [OF that]
    by (metis set_map)
  have known: "map_of (dict_comp short_name (\<lambda>item. item) project_items) (sname sd) \<noteq> None"
    if "make_pipeline valid project_items inj direction execution_permits = Inr q"
      and "sd \<in> set (solid_defs q)" for q inj direction sd
    using names [OF that(1)] that(2) lookup_knows_items [of project_items "sname sd"]
    by blast
  show "\<forall>sd\<in>set (solid_defs (self_backward_pipeline eng)).
           map_of (self_project_item_lookup eng) (sname sd) \<noteq> None"
    using known [OF bp] by (simp add: eng del: not_None_eq)
  show "\<forall>sd\<in>set (solid_defs (self_forward_pipeline eng)).
           map_of (self_project_item_lookup eng) (sname sd) \<noteq> None"
    using known [OF fp] by (simp add: eng del: not_None_eq)
qed

lemma run_unfold:
  assumes "execute_pipeline_iterator stops (self_backward_pipeline self) []
             (self\<lparr>self_state := RUNNING\<rparr>, env) = Inr (stb, c2)"
    and "execute_pipeline_iterator stops (self_forward_pipeline self) [] c2 = Inr (stf, c3)"
  shows "run stops self env =
     Inr (if self_state (fst (other_thread stops BeforeFinish c3)) = RUNNING
          then (fst (other_thread stops BeforeFinish c3))\<lparr>self_state := COMPLETED\<rparr>
          else fst (other_thread stops BeforeFinish c3),
          snd (other_thread stops BeforeFinish c3))"
proof -
  from micro_steps_fields [OF pass_micro [OF assms(1)]]
  have "self_forward_pipeline (fst c2) = self_forward_pipeline self" by simp
  with assms show ?thesis
    by (simp add: run_def Let_def split: prod.splits)
qed

lemma run_passes:
  assumes "\<forall>sd\<in>set (solid_defs (self_backward_pipeline self)).
           map_of (self_project_item_lookup self) (sname sd) \<noteq> None"
    and "\<forall>sd\<in>set (solid_defs (self_forward_pipeline self)).
           map_of (self_project_item_lookup self) (sname sd) \<noteq> None"
  shows "\<exists>stb c2 stf c3.
     execute_pipeline_iterator stops (self_backward_pipeline self) []
             (self\<lparr>self_state := RUNNING\<rparr>, env) = Inr (stb, c2) \<and>
     execute_pipeline_iterator stops (self_forward_pipeline self) [] c2 = Inr (stf, c3)"
proof -
  from assms(1) pass_defined [of "self_backward_pipeline self" "(self\<lparr>self_state := RUNNING\<rparr>, env)" stops "[]"]
  obtain stb c2 where b: "execute_pipeline_iterator stops (self_backward_pipeline self) []
             (self\<lparr>self_state := RUNNING\<rparr>, env) = Inr (stb, c2)"
    by auto
  from micro_steps_fields [OF pass_micro [OF b]]
  have "self_project_item_lookup (fst c2) = self_project_item_lookup self" by simp
  with assms(2) pass_defined [of "self_forward_pipeline self" c2 stops "[]"]
  obtain stf c3 where "execute_pipeline_iterator stops (self_forward_pipeline self) [] c2 = Inr (stf, c3)"
    by auto
  with b show ?thesis by blast
qed


text \<open>
  Claim C5: the run of a constructed engine returns, and its final state follows from
  what happened during the two passes. The state the loop is in after both passes is
  \<open>RUNNING\<close> when no node-failed event was consumed and no stop arrived, \<open>USER_STOPPED\<close>
  when a stop arrived, \<open>FAILED\<close> otherwise; \<open>run\<close> turns \<open>RUNNING\<close> into \<open>COMPLETED\<close> and
  keeps the other two.
\<close>

theorem run_final_state:
  assumes "SpineEngine_init valid project_items successors execution_permits = Inr eng"
  shows "\<exists>eng' env' new.
     run stops eng env = Inr (eng', env') \<and> log env' = log env @ new \<and>
     state eng' = (if loop_state new = RUNNING then COMPLETED else loop_state new) \<and>
     loop_state new =
       (if stop_called new then USER_STOPPED else if failure_consumed new then FAILED else RUNNING)"
proof -
  from run_passes [OF init_knows_solids [OF assms]] obtain stb c2 stf c3 where
    b: "execute_pipeline_iterator stops (self_backward_pipeline eng) []
             (eng\<lparr>self_state := RUNNING\<rparr>, env) = Inr (stb, c2)"
    and f: "execute_pipeline_iterator stops (self_forward_pipeline eng) [] c2 = Inr (stf, c3)"
    by blast
  let ?c0 = "(eng\<lparr>self_state := RUNNING\<rparr>, env)"
  let ?c4 = "other_thread stops BeforeFinish c3"
  have "micro_step\<^sup>*\<^sup>* ?c0 c2" using b by (rule pass_micro)
  also have "micro_step\<^sup>*\<^sup>* c2 c3" using f by (rule pass_micro)
  also have "micro_step c3 ?c4" by (rule micro_step.thread)
  finally have steps: "micro_step\<^sup>*\<^sup>* ?c0 ?c4" .
  have "\<exists>new. log (snd ?c4) = log env @ new \<and> self_state (fst ?c4) = loop_state new"
    using steps by (rule micro_steps_loop_state [where new = "[]"])
      (simp_all add: loop_state_def stop_called_def failure_consumed_def)
  then obtain new where lg: "log (snd ?c4) = log env @ new"
    and st: "self_state (fst ?c4) = loop_state new"
    by blast
  from run_unfold [OF b f] lg st show ?thesis
    by (auto simp: state_def loop_state_def)
qed

theorem run_final_state_witness:
  "\<exists>eng eng' env' new.
     SpineEngine_init (\<lambda>p. True) items_ab successors_ab permits_ab = Inr eng \<and>
     run no_stops eng env0 = Inr (eng', env') \<and> log env' = log env0 @ new \<and>
     state eng' = (if loop_state new = RUNNING then COMPLETED else loop_state new)"
proof -
  obtain eng where init: "SpineEngine_init (\<lambda>p. True) items_ab successors_ab permits_ab = Inr eng"
    by (simp add: SpineEngine_init_def back_injectors_def item_names_def dict_comp_def items_ab_def
      successors_ab_def permits_ab_def example_item_def make_pipeline_def Let_def)
  from run_final_state [OF init, of no_stops env0] init show ?thesis
    by blast
qed

section \<open>One node\<close>

lemma other_thread_item_work:
  "item_work (log (snd (other_thread stops pt c))) = item_work (log (snd c))"
  using other_thread_cases [of stops pt c]
  by (auto simp: item_work_def)

lemma consume_env:
  assumes "consume ty n c = Inr c'"
  shows "item_work (log (snd c')) = item_work (log (snd c))" and "world (snd c') = world (snd c)"
  using consume_Inr(2) [OF assms] by (simp_all add: item_work_def)

lemma consume_state:
  assumes "consume ty n c = Inr c'" and "ty \<noteq> STEP_FAILURE"
  shows "self_state (fst c') = self_state (fst c)"
  using handle_event_Inr(4) [OF consume_Inr(1) [OF assms(1)]] assms(2) by simp

lemma run_node_doomed:
  assumes run: "run_node stops p st sd c = Inr (status, c1)"
    and doomed: "self_state (fst c) = USER_STOPPED \<or> self_state (fst c) = FAILED"
  shows "status = (if list_all (succeeded st) (preds p (sname sd)) then NodeFailed else Skipped)"
proof (cases "list_all (succeeded st) (preds p (sname sd))")
  case False
  with run_node_skip(1) [OF run] show ?thesis by simp
next
  case True
  let ?pn = "pipeline_name p" and ?n = "sname sd"
  from run_node_computed [OF run True] obtain cb res env3 where
    start: "consume STEP_START ?n (other_thread stops (BeforeStart ?pn ?n) c) = Inr cb"
    and comp: "compute_fn (fst (other_thread stops (BeforeCompute ?pn ?n) cb)) sd
       (gather_inputs p st ?n) (snd (other_thread stops (BeforeCompute ?pn ?n) cb)) = (res, env3)"
    and fin: "case res of
       Failure \<Rightarrow> status = NodeFailed \<and>
         consume STEP_FAILURE ?n
           (other_thread stops (AfterCompute ?pn ?n)
              (fst (other_thread stops (BeforeCompute ?pn ?n) cb), env3)) = Inr c1
     | Output rs \<Rightarrow> status = Succeeded rs \<and>
         (\<exists>ce. consume STEP_OUTPUT ?n
           (other_thread stops (AfterCompute ?pn ?n)
              (fst (other_thread stops (BeforeCompute ?pn ?n) cb), env3)) = Inr ce \<and>
           consume STEP_SUCCESS ?n ce = Inr c1)"
    by blast
  let ?ca = "other_thread stops (BeforeStart ?pn ?n) c"
  let ?cc = "other_thread stops (BeforeCompute ?pn ?n) cb"
  have "micro_step c ?ca" by (rule micro_step.thread)
  moreover have "micro_step ?ca cb" using start by (rule micro_step.event)
  moreover have "micro_step cb ?cc" by (rule micro_step.thread)
  ultimately have "micro_step\<^sup>*\<^sup>* c ?cc"
    by (meson rtranclp.rtrancl_into_rtrancl rtranclp.rtrancl_refl)
  from micro_steps_doomed [OF this doomed]
  have "self_state (fst ?cc) = USER_STOPPED \<or> self_state (fst ?cc) = FAILED" by simp
  then have "compute_fn (fst ?cc) sd (gather_inputs p st ?n) (snd ?cc) = (Failure, snd ?cc)"
    by (auto simp: compute_fn_def state_def)
  with comp have "res = Failure" by simp
  with fin True show ?thesis by simp
qed

lemma run_node_running:
  assumes run: "run_node stops p st sd c = Inr (status, c1)"
    and ok: "list_all (succeeded st) (preds p (sname sd))"
    and running: "self_state (fst c) = RUNNING"
    and quiet: "\<not> stops (BeforeStart (pipeline_name p) (sname sd))"
      "\<not> stops (BeforeCompute (pipeline_name p) (sname sd))"
  shows "\<exists>self1 env1 res env3.
      self_state self1 = RUNNING \<and> world env1 = world (snd c) \<and>
      item_work (log env1) = item_work (log (snd c)) \<and>
      compute_fn self1 sd (gather_inputs p st (sname sd)) env1 = (res, env3) \<and>
      item_work (log (snd c1)) = item_work (log env3) \<and>
      status = (case res of Failure \<Rightarrow> NodeFailed | Output rs \<Rightarrow> Succeeded rs)"
proof -
  let ?pn = "pipeline_name p" and ?n = "sname sd"
  have idle: "other_thread stops (BeforeStart ?pn ?n) x = x"
    "other_thread stops (BeforeCompute ?pn ?n) x = x" for x :: "('a, 'b) SpineEngine \<times> ('a, 'b) env"
    using quiet by (simp_all add: other_thread_def)
  from run_node_computed [OF run ok, unfolded idle]
  obtain cb res env3 where
    start: "consume STEP_START ?n c = Inr cb"
    and comp: "compute_fn (fst cb) sd (gather_inputs p st ?n) (snd cb) = (res, env3)"
    and fin: "case res of
       Failure \<Rightarrow> status = NodeFailed \<and>
         consume STEP_FAILURE ?n (other_thread stops (AfterCompute ?pn ?n) (fst cb, env3)) = Inr c1
     | Output rs \<Rightarrow> status = Succeeded rs \<and>
         (\<exists>ce. consume STEP_OUTPUT ?n (other_thread stops (AfterCompute ?pn ?n) (fst cb, env3)) = Inr ce \<and>
           consume STEP_SUCCESS ?n ce = Inr c1)"
    by blast
  let ?cd = "other_thread stops (AfterCompute ?pn ?n) (fst cb, env3)"
  have s: "self_state (fst cb) = RUNNING"
    using consume_state [OF start] running by simp
  have w: "world (snd cb) = world (snd c)" "item_work (log (snd cb)) = item_work (log (snd c))"
    using consume_env [OF start] by simp_all
  have d: "item_work (log (snd ?cd)) = item_work (log env3)"
    using other_thread_item_work [of stops "AfterCompute ?pn ?n" "(fst cb, env3)"] by simp
  have "item_work (log (snd c1)) = item_work (log env3) \<and>
      status = (case res of Failure \<Rightarrow> NodeFailed | Output rs \<Rightarrow> Succeeded rs)"
  proof (cases res)
    case Failure
    with fin have "status = NodeFailed" "consume STEP_FAILURE ?n ?cd = Inr c1" by simp_all
    with consume_env(1) [OF this(2)] d Failure show ?thesis by simp
  next
    case (Output rs)
    with fin obtain ce where "status = Succeeded rs" and
      o: "consume STEP_OUTPUT ?n ?cd = Inr ce" and su: "consume STEP_SUCCESS ?n ce = Inr c1"
      by auto
    with consume_env(1) [OF o] consume_env(1) [OF su] d Output show ?thesis by simp
  qed
  with s w comp show ?thesis by blast
qed

lemma pass_keeps_status:
  assumes "execute_pipeline_iterator stops p st c = Inr (st', c')"
    and "map_of st k = Some v"
  shows "map_of st' k = Some v"
  using assms(1)
proof (rule pass_induct [where P = "\<lambda>st1 c1. map_of st1 k = Some v"])
  show "map_of st k = Some v" by (rule assms(2))
next
  fix st1 :: "(string, 'a node_status) dict" and c1 c2 :: "('a, 'b) SpineEngine \<times> ('a, 'b) env"
    and sd status
  assume k: "map_of st1 k = Some v" and "find (ready p st1) (solid_defs p) = Some sd"
  then have "map_of st1 (sname sd) = None"
    by (auto simp: find_Some_iff ready_def pending_def)
  with k have "sname sd \<noteq> k" by auto
  with k show "map_of (dict_set st1 (sname sd) status) k = Some v"
    by (simp add: map_of_dict_set)
qed

lemma gather_inputs_delivers:
  assumes "(input_name, (m, out)) \<in> set (entries (dependencies p) n)"
    and "map_of st m = Some (Succeeded rs)"
  shows "(input_name, rs) \<in> set (gather_inputs p st n)"
proof -
  have "(input_name, output_of st m) \<in> set (gather_inputs p st n)"
    using assms(1) by (force simp: gather_inputs_def)
  with assms(2) show ?thesis by (simp add: output_of_def)
qed

lemma concat_gather_inputs:
  "concat (map snd (gather_inputs p st n)) = concat (map (output_of st) (preds p n))"
  by (simp add: gather_inputs_def preds_def comp_def case_prod_unfold)

section \<open>The claims about a node\<close>

text \<open>
  Claim C1: when the state is \<open>USER_STOPPED\<close> or \<open>FAILED\<close> as a node's \<open>compute_fn\<close>
  runs, it fails at once: the result is a failure and the environment is untouched, so
  neither \<open>execute\<close> nor \<open>output_resources\<close> was called. The same \<open>compute_fn\<close> serves both
  directions. Hence a pass that starts in one of these two states calls no \<open>execute\<close> and
  no \<open>output_resources\<close> at all, ends in one of them, and every node it gives a status
  to has failed or was skipped.
\<close>

theorem fail_fast:
  "(state self = USER_STOPPED \<or> state self = FAILED \<longrightarrow>
      compute_fn self sd inputs env = (Failure, env)) \<and>
   (state (fst c) = USER_STOPPED \<or> state (fst c) = FAILED \<longrightarrow>
    execute_pipeline_iterator stops p st c = Inr (st', c') \<longrightarrow>
      item_work (log (snd c')) = item_work (log (snd c)) \<and>
      (state (fst c') = USER_STOPPED \<or> state (fst c') = FAILED) \<and>
      (\<forall>n. map_of st n = None \<longrightarrow>
         map_of st' n = None \<or> map_of st' n = Some NodeFailed \<or> map_of st' n = Some Skipped))"
proof (intro conjI impI)
  assume "state self = USER_STOPPED \<or> state self = FAILED"
  then show "compute_fn self sd inputs env = (Failure, env)"
    by (auto simp: compute_fn_def)
next
  assume doomed: "state (fst c) = USER_STOPPED \<or> state (fst c) = FAILED"
    and pass: "execute_pipeline_iterator stops p st c = Inr (st', c')"
  from doomed have d: "self_state (fst c) = USER_STOPPED \<or> self_state (fst c) = FAILED"
    by (simp add: state_def)
  from micro_steps_doomed [OF pass_micro [OF pass] d]
  show "item_work (log (snd c')) = item_work (log (snd c))"
    and "state (fst c') = USER_STOPPED \<or> state (fst c') = FAILED"
    by (simp_all add: state_def)
  let ?P = "\<lambda>st1 c1. (self_state (fst c1) = USER_STOPPED \<or> self_state (fst c1) = FAILED) \<and>
      (\<forall>n. map_of st n = None \<longrightarrow>
         map_of st1 n = None \<or> map_of st1 n = Some NodeFailed \<or> map_of st1 n = Some Skipped)"
  have "?P st' c'"
    using pass
  proof (rule pass_induct [where P = ?P])
    show "?P st c" using d by simp
  next
    fix st1 c1 c2 sd1 status
    assume P: "?P st1 c1" and node: "run_node stops p st1 sd1 c1 = Inr (status, c2)"
    from P have d1: "self_state (fst c1) = USER_STOPPED \<or> self_state (fst c1) = FAILED" by simp
    from run_node_doomed [OF node d1] have "status = NodeFailed \<or> status = Skipped"
      by (simp split: if_splits)
    moreover from micro_steps_doomed [OF run_node_micro [OF node] d1]
    have "self_state (fst c2) = USER_STOPPED \<or> self_state (fst c2) = FAILED" by simp
    ultimately show "?P (dict_set st1 (sname sd1) status) c2"
      using P by (auto simp: map_of_dict_set)
  qed
  then show "\<forall>n. map_of st n = None \<longrightarrow>
         map_of st' n = None \<or> map_of st' n = Some NodeFailed \<or> map_of st' n = Some Skipped"
    by simp
qed

theorem fail_fast_witness:
  "\<exists>eng st' c'.
     SpineEngine_init (\<lambda>p. True) items_ab successors_ab permits_ab = Inr eng \<and>
     state (eng\<lparr>self_state := FAILED\<rparr>) = FAILED \<and>
     compute_fn (eng\<lparr>self_state := FAILED\<rparr>)
       (make_solid_def (example_item ''item a'' ''a'' True) [] ''forward'' True) [] env0 = (Failure, env0) \<and>
     execute_pipeline_iterator no_stops (self_forward_pipeline eng) []
       (eng\<lparr>self_state := FAILED\<rparr>, env0) = Inr (st', c') \<and>
     item_work (log (snd c')) = [] \<and>
     (state (fst c') = USER_STOPPED \<or> state (fst c') = FAILED) \<and>
     (map_of st' ''a'' = None \<or> map_of st' ''a'' = Some NodeFailed \<or> map_of st' ''a'' = Some Skipped)"
proof -
  obtain eng where init: "SpineEngine_init (\<lambda>p. True) items_ab successors_ab permits_ab = Inr eng"
    by (simp add: SpineEngine_init_def back_injectors_def item_names_def dict_comp_def items_ab_def
      successors_ab_def permits_ab_def example_item_def make_pipeline_def Let_def)
  let ?self = "eng\<lparr>self_state := FAILED\<rparr>"
  have f: "state ?self = FAILED" "state (fst (?self, env0)) = FAILED"
    by (simp_all add: state_def)
  from init_knows_solids(2) [OF init]
  have "\<forall>sd\<in>set (solid_defs (self_forward_pipeline eng)).
      map_of (self_project_item_lookup (fst (?self, env0))) (sname sd) \<noteq> None"
    by simp
  from pass_defined [OF this] obtain st' c' where
    pass: "execute_pipeline_iterator no_stops (self_forward_pipeline eng) [] (?self, env0) = Inr (st', c')"
    by blast
  have e: "item_work (log (snd (?self, env0))) = []" "map_of ([] :: (string, string node_status) dict) ''a'' = None"
    by (simp_all add: env0_def item_work_def)
  from fail_fast [of ?self "make_solid_def (example_item ''item a'' ''a'' True) [] ''forward'' True"
      "[]" env0 "(?self, env0)" no_stops "self_forward_pipeline eng" "[]" st' c'] f pass e
  have "compute_fn ?self (make_solid_def (example_item ''item a'' ''a'' True) [] ''forward'' True) [] env0
      = (Failure, env0)"
    and "item_work (log (snd c')) = []"
    and "state (fst c') = USER_STOPPED \<or> state (fst c') = FAILED"
    and "map_of st' ''a'' = None \<or> map_of st' ''a'' = Some NodeFailed \<or> map_of st' ''a'' = Some Skipped"
    by simp_all
  with init f(1) pass show ?thesis by blast
qed

text \<open>
  Claim C2: a node whose permit is false, reached with the state \<open>RUNNING\<close>, all its
  predecessors succeeded and no stop arriving before its \<open>compute_fn\<close>, does not call
  \<open>execute\<close>; it calls \<open>output_resources\<close> once, and the result is the output the node
  succeeds with. That status stays as it is to the end of the pass, and every dependent
  that gathers its inputs while it stands receives the output under the input name
  connected to the node.
\<close>

theorem pass_through_without_permit:
  assumes permit: "\<not> solid_execute sd"
    and running: "state (fst c) = RUNNING"
    and ok: "list_all (succeeded st) (preds p (sname sd))"
    and quiet: "\<not> stops (BeforeStart (pipeline_name p) (sname sd))"
      "\<not> stops (BeforeCompute (pipeline_name p) (sname sd))"
    and known: "map_of (self_project_item_lookup (fst c)) (sname sd) \<noteq> None"
  shows "\<exists>c1 rs.
     rs = fst (output_resources (solid_item sd) (world (snd c)) (solid_direction sd)) \<and>
     run_node stops p st sd c = Inr (Succeeded rs, c1) \<and>
     item_work (log (snd c1)) =
       item_work (log (snd c)) @ [OutputResources (short_name (solid_item sd)) (solid_direction sd)] \<and>
     (\<forall>st' c'. execute_pipeline_iterator stops p (dict_set st (sname sd) (Succeeded rs)) c1 = Inr (st', c') \<longrightarrow>
        map_of st' (sname sd) = Some (Succeeded rs)) \<and>
     (\<forall>st2 n input_name out. map_of st2 (sname sd) = Some (Succeeded rs) \<longrightarrow>
        (input_name, (sname sd, out)) \<in> set (entries (dependencies p) n) \<longrightarrow>
        (input_name, rs) \<in> set (gather_inputs p st2 n))"
proof -
  let ?item = "solid_item sd" and ?dir = "solid_direction sd"
  let ?rs = "fst (output_resources ?item (world (snd c)) ?dir)"
  from run_node_defined [OF known] obtain status c1 where
    run: "run_node stops p st sd c = Inr (status, c1)" by blast
  from running have r: "self_state (fst c) = RUNNING" by (simp add: state_def)
  from run_node_running [OF run ok r quiet] obtain self1 env1 res env3 where
    s1: "self_state self1 = RUNNING" and w1: "world env1 = world (snd c)"
    and l1: "item_work (log env1) = item_work (log (snd c))"
    and comp: "compute_fn self1 sd (gather_inputs p st (sname sd)) env1 = (res, env3)"
    and l3: "item_work (log (snd c1)) = item_work (log env3)"
    and status: "status = (case res of Failure \<Rightarrow> NodeFailed | Output rs \<Rightarrow> Succeeded rs)"
    by blast
  from comp permit s1 w1 have res: "res = Output ?rs"
    and env3: "log env3 = log env1 @ [OutputResources (short_name ?item) ?dir]"
    by (auto simp: compute_fn_def yield_output_def state_def Let_def split: prod.splits)
  from res status have st: "status = Succeeded ?rs" by simp
  have work: "item_work (log (snd c1)) =
      item_work (log (snd c)) @ [OutputResources (short_name ?item) ?dir]"
    using l3 env3 l1 by (simp add: item_work_def)
  have keeps: "map_of st' (sname sd) = Some (Succeeded ?rs)"
    if "execute_pipeline_iterator stops p (dict_set st (sname sd) (Succeeded ?rs)) c1 = Inr (st', c')"
    for st' c'
    using that by (rule pass_keeps_status) (simp add: map_of_dict_set)
  have delivers: "(input_name, ?rs) \<in> set (gather_inputs p st2 n)"
    if "map_of st2 (sname sd) = Some (Succeeded ?rs)"
      and "(input_name, (sname sd, out)) \<in> set (entries (dependencies p) n)"
    for st2 n input_name out
    using that(2,1) by (rule gather_inputs_delivers)
  from run st work keeps delivers show ?thesis by blast
qed

section \<open>The skip cascade\<close>

lemma pass_end:
  "execute_pipeline_iterator stops p st c = Inr (st', c') \<Longrightarrow>
   find (ready p st') (solid_defs p) = None"
proof (induction stops p st c rule: execute_pipeline_iterator.induct)
  case (1 stops p st c)
  show ?case
  proof (cases "find (ready p st) (solid_defs p)")
    case None
    with "1.prems" show ?thesis
      by (simp add: execute_pipeline_iterator.simps)
  next
    case (Some sd)
    with "1.prems" obtain status c1 where
      node: "run_node stops p st sd c = Inr (status, c1)"
      and rest: "execute_pipeline_iterator stops p (dict_set st (sname sd) status) c1 = Inr (st', c')"
      by (auto simp: execute_pipeline_iterator.simps [of stops p st c] split: sum.splits)
    from "1.IH" [OF Some node refl rest] show ?thesis .
  qed
qed

lemma succeeded_dict_set:
  "m \<noteq> k \<Longrightarrow> succeeded (dict_set st k v) m = succeeded st m"
  by (simp add: succeeded_def map_of_dict_set)

lemma cascaded_step:
  assumes casc: "cascaded p st"
    and found: "find (ready p st) (solid_defs p) = Some sd"
    and node: "run_node stops p st sd c = Inr (status, c1)"
  shows "cascaded p (dict_set st (sname sd) status)"
proof -
  let ?n0 = "sname sd" and ?st' = "dict_set st (sname sd) status"
  from found have pend: "map_of st ?n0 = None"
    and rdy: "\<forall>m\<in>set (preds p ?n0). map_of st m \<noteq> None"
    by (auto simp: find_Some_iff ready_def pending_def list_all_iff)
  have other: "m \<noteq> ?n0" if "map_of st m \<noteq> None" for m
    using that pend by auto
  show ?thesis
    unfolding cascaded_def
  proof (intro allI impI)
    fix n assume has: "map_of ?st' n \<noteq> None"
    have pre: "\<forall>m\<in>set (preds p n). map_of st m \<noteq> None"
    proof (cases "n = ?n0")
      case True
      with rdy show ?thesis by simp
    next
      case False
      with has have "map_of st n \<noteq> None" by (simp add: map_of_dict_set)
      with casc show ?thesis by (simp add: cascaded_def)
    qed
    then have neq: "\<forall>m\<in>set (preds p n). m \<noteq> ?n0" using other by blast
    have same: "\<forall>m\<in>set (preds p n). succeeded ?st' m = succeeded st m"
      using neq by (simp add: succeeded_dict_set)
    have part1: "\<forall>m\<in>set (preds p n). map_of ?st' m \<noteq> None"
      using pre neq by (simp add: map_of_dict_set)
    have part2: "map_of ?st' n = Some Skipped" if ex: "\<exists>m\<in>set (preds p n). \<not> succeeded ?st' m"
    proof (cases "n = ?n0")
      case True
      from ex same have "\<not> list_all (succeeded st) (preds p ?n0)"
        by (auto simp: True list_all_iff)
      from run_node_skip(1) [OF node this] True show ?thesis
        by (simp add: map_of_dict_set)
    next
      case False
      with has have h: "map_of st n \<noteq> None" by (simp add: map_of_dict_set)
      from ex same have "\<exists>m\<in>set (preds p n). \<not> succeeded st m" by blast
      with casc h have "map_of st n = Some Skipped" by (simp add: cascaded_def)
      with False show ?thesis by (simp add: map_of_dict_set)
    qed
    from part1 part2 show "(\<forall>m\<in>set (preds p n). map_of ?st' m \<noteq> None) \<and>
        ((\<exists>m\<in>set (preds p n). \<not> succeeded ?st' m) \<longrightarrow> map_of ?st' n = Some Skipped)"
      by blast
  qed
qed

lemma pass_cascaded:
  assumes "execute_pipeline_iterator stops p st c = Inr (st', c')" and "cascaded p st"
  shows "cascaded p st'"
  using assms(1)
proof (rule pass_induct [where P = "\<lambda>st1 c1. cascaded p st1"])
  show "cascaded p st" by (rule assms(2))
next
  fix st1 c1 sd status c2
  assume "cascaded p st1" "find (ready p st1) (solid_defs p) = Some sd"
    "run_node stops p st1 sd c1 = Inr (status, c2)"
  then show "cascaded p (dict_set st1 (sname sd) status)" by (rule cascaded_step)
qed

lemma cascade_reaches:
  assumes casc: "cascaded p st"
    and path: "(m, n) \<in> (feeds p)\<^sup>+"
    and bad: "map_of st m = Some NodeFailed \<or> map_of st m = Some Skipped"
  shows "map_of st n = None \<or> map_of st n = Some Skipped"
  using path
proof (induction rule: trancl_induct)
  case (base y)
  then have "m \<in> set (preds p y)" by (simp add: feeds_def)
  moreover from bad have "\<not> succeeded st m" by (auto simp: succeeded_def)
  ultimately show ?case using casc by (auto simp: cascaded_def)
next
  case (step y z)
  then have y: "y \<in> set (preds p z)" by (simp add: feeds_def)
  show ?case
  proof (cases "map_of st z = None")
    case True
    then show ?thesis by simp
  next
    case False
    with casc y have "map_of st y \<noteq> None" by (auto simp: cascaded_def)
    with step.IH have "map_of st y = Some Skipped" by simp
    then have "\<not> succeeded st y" by (simp add: succeeded_def)
    with casc y False show ?thesis by (auto simp: cascaded_def)
  qed
qed

lemma pass_complete:
  assumes pass: "execute_pipeline_iterator stops p st c = Inr (st', c')"
    and ac: "acyclic_closed p"
    and sd: "sd \<in> set (solid_defs p)"
  shows "map_of st' (sname sd) \<noteq> None"
proof -
  from ac have wf: "wf (feeds p)"
    and closed: "\<And>sd m. sd \<in> set (solid_defs p) \<Longrightarrow> m \<in> set (preds p (sname sd)) \<Longrightarrow>
        m \<in> sname ` set (solid_defs p)"
    by (auto simp: acyclic_closed_def list_all_iff)
  have none_ready: "find (ready p st') (solid_defs p) = None"
    using pass by (rule pass_end)
  have "n \<in> sname ` set (solid_defs p) \<longrightarrow> map_of st' n \<noteq> None" for n
    using wf
  proof (induction n rule: wf_induct_rule)
    case (less n)
    show ?case
    proof
      assume "n \<in> sname ` set (solid_defs p)"
      then obtain sd' where sd': "sd' \<in> set (solid_defs p)" "sname sd' = n" by auto
      have "map_of st' m \<noteq> None" if "m \<in> set (preds p n)" for m
      proof -
        from that have "(m, n) \<in> feeds p" by (simp add: feeds_def)
        moreover from closed [OF sd'(1)] that sd'(2) have "m \<in> sname ` set (solid_defs p)" by simp
        ultimately show ?thesis using less by blast
      qed
      then have all: "list_all (\<lambda>m. map_of st' m \<noteq> None) (preds p (sname sd'))"
        by (simp add: list_all_iff sd'(2))
      show "map_of st' n \<noteq> None"
      proof
        assume "map_of st' n = None"
        with all sd'(2) have "ready p st' sd'" by (simp add: ready_def pending_def)
        with sd'(1) none_ready show False by (auto simp: find_None_iff)
      qed
    qed
  qed
  with sd show ?thesis by blast
qed

text \<open>
  Claim C3: a node whose permit is true, reached with the state \<open>RUNNING\<close>, all its
  predecessors succeeded and no stop arriving before its \<open>compute_fn\<close>, calls \<open>execute\<close>
  on the concatenation of its predecessors' outputs, in their order. When \<open>execute\<close>
  returns false the node fails and \<open>output_resources\<close> is not called; when it returns
  true the node succeeds with what \<open>output_resources\<close> returns. And at the end of a
  pass, a transitive dependent of a failed node has no status or is skipped; in a
  pipeline without cycles whose predecessors are all solids it is skipped.
\<close>

theorem execute_with_permit:
  "(solid_execute sd \<longrightarrow> state (fst c) = RUNNING \<longrightarrow>
    list_all (succeeded st) (preds p (sname sd)) \<longrightarrow>
    \<not> stops (BeforeStart (pipeline_name p) (sname sd)) \<longrightarrow>
    \<not> stops (BeforeCompute (pipeline_name p) (sname sd)) \<longrightarrow>
    map_of (self_project_item_lookup (fst c)) (sname sd) \<noteq> None \<longrightarrow>
    (let item = solid_item sd; dir = solid_direction sd;
         ins = concat (map (output_of st) (preds p (sname sd)));
         executed = execute item (world (snd c)) ins dir
     in \<exists>status c1.
          run_node stops p st sd c = Inr (status, c1) \<and>
          item_work (log (snd c1)) =
            item_work (log (snd c)) @ Execute (short_name item) ins dir #
              (if fst executed then [OutputResources (short_name item) dir] else []) \<and>
          status =
            (if fst executed then Succeeded (fst (output_resources item (snd executed) dir))
             else NodeFailed))) \<and>
   (execute_pipeline_iterator stops p [] c0 = Inr (st', c') \<longrightarrow>
    map_of st' m = Some NodeFailed \<longrightarrow> (m, n) \<in> (feeds p)\<^sup>+ \<longrightarrow>
      (map_of st' n = None \<or> map_of st' n = Some Skipped) \<and>
      (acyclic_closed p \<longrightarrow> n \<in> sname ` set (solid_defs p) \<longrightarrow> map_of st' n = Some Skipped))"
proof (intro conjI impI)
  assume permit: "solid_execute sd"
    and running: "state (fst c) = RUNNING"
    and ok: "list_all (succeeded st) (preds p (sname sd))"
    and quiet: "\<not> stops (BeforeStart (pipeline_name p) (sname sd))"
      "\<not> stops (BeforeCompute (pipeline_name p) (sname sd))"
    and known: "map_of (self_project_item_lookup (fst c)) (sname sd) \<noteq> None"
  let ?item = "solid_item sd" and ?dir = "solid_direction sd"
  let ?ins = "concat (map (output_of st) (preds p (sname sd)))"
  let ?ex = "execute ?item (world (snd c)) ?ins ?dir"
  from run_node_defined [OF known] obtain status c1 where
    run: "run_node stops p st sd c = Inr (status, c1)" by blast
  from running have r: "self_state (fst c) = RUNNING" by (simp add: state_def)
  from run_node_running [OF run ok r quiet] obtain self1 env1 res env3 where
    s1: "self_state self1 = RUNNING" and w1: "world env1 = world (snd c)"
    and l1: "item_work (log env1) = item_work (log (snd c))"
    and comp: "compute_fn self1 sd (gather_inputs p st (sname sd)) env1 = (res, env3)"
    and l3: "item_work (log (snd c1)) = item_work (log env3)"
    and status: "status = (case res of Failure \<Rightarrow> NodeFailed | Output rs \<Rightarrow> Succeeded rs)"
    by blast
  have "res = (if fst ?ex then Output (fst (output_resources ?item (snd ?ex) ?dir)) else Failure) \<and>
      log env3 = log env1 @ Execute (short_name ?item) ?ins ?dir #
        (if fst ?ex then [OutputResources (short_name ?item) ?dir] else [])"
    using comp permit s1 w1
    by (auto simp: compute_fn_def yield_output_def state_def Let_def concat_gather_inputs
        split: prod.splits)
  with status l3 l1 have
    "item_work (log (snd c1)) =
       item_work (log (snd c)) @ Execute (short_name ?item) ?ins ?dir #
         (if fst ?ex then [OutputResources (short_name ?item) ?dir] else [])"
    and "status = (if fst ?ex then Succeeded (fst (output_resources ?item (snd ?ex) ?dir))
         else NodeFailed)"
    by (simp_all add: item_work_def)
  with run show "let item = solid_item sd; dir = solid_direction sd;
         ins = concat (map (output_of st) (preds p (sname sd)));
         executed = execute item (world (snd c)) ins dir
     in \<exists>status c1.
          run_node stops p st sd c = Inr (status, c1) \<and>
          item_work (log (snd c1)) =
            item_work (log (snd c)) @ Execute (short_name item) ins dir #
              (if fst executed then [OutputResources (short_name item) dir] else []) \<and>
          status =
            (if fst executed then Succeeded (fst (output_resources item (snd executed) dir))
             else NodeFailed)"
    unfolding Let_def by blast
next
  assume pass: "execute_pipeline_iterator stops p [] c0 = Inr (st', c')"
    and failed: "map_of st' m = Some NodeFailed"
    and path: "(m, n) \<in> (feeds p)\<^sup>+"
  have "cascaded p []" by (simp add: cascaded_def)
  with pass have "cascaded p st'" by (rule pass_cascaded)
  from cascade_reaches [OF this path] failed
  show reach: "map_of st' n = None \<or> map_of st' n = Some Skipped" by simp
  assume "acyclic_closed p" and "n \<in> sname ` set (solid_defs p)"
  then obtain sd' where "sd' \<in> set (solid_defs p)" "sname sd' = n" by auto
  with pass_complete [OF pass \<open>acyclic_closed p\<close>] have "map_of st' n \<noteq> None" by blast
  with reach show "map_of st' n = Some Skipped" by simp
qed

section \<open>The claims about a node, on the small workflow\<close>

lemma init_example:
  "SpineEngine_init (\<lambda>p. True) [example_item ''item a'' ''a'' ok, example_item ''item b'' ''b'' True]
     successors_ab [(''item a'', permit), (''item b'', True)] = Inr (example_engine ok permit)"
  by (simp add: SpineEngine_init_def back_injectors_def item_names_def dict_comp_def
      successors_ab_def example_item_def make_pipeline_def Let_def example_engine_def
      example_pipeline_def inverted_def)

lemma feeds_example:
  "feeds (example_pipeline ok permit ''forward'' [(''b'', [''a''])]) = {(''a'', ''b'')}"
  by (auto simp: feeds_def preds_def entries_def example_pipeline_def make_dependencies_def
      dict_comp_def split: if_splits)

lemma acyclic_closed_example:
  "acyclic_closed (example_pipeline ok permit ''forward'' [(''b'', [''a''])])"
  unfolding acyclic_closed_def feeds_example
  by (simp add: wf_insert preds_def entries_def example_pipeline_def make_dependencies_def
      dict_comp_def make_solid_def_def example_item_def)

theorem pass_through_without_permit_witness:
  "SpineEngine_init (\<lambda>p. True) [example_item ''item a'' ''a'' True, example_item ''item b'' ''b'' True]
     successors_ab [(''item a'', False), (''item b'', True)] = Inr (example_engine True False) \<and>
   (\<exists>c1. run_node no_stops (self_forward_pipeline (example_engine True False)) []
           (make_solid_def (example_item ''item a'' ''a'' True) [(''b'', [''a''])] ''forward'' False)
           ((example_engine True False)\<lparr>self_state := RUNNING\<rparr>, env0)
         = Inr (Succeeded [''a.forward''], c1) \<and>
         item_work (log (snd c1)) = [OutputResources ''a'' ''forward'']) \<and>
   (''input_from_a'', [''a.forward''])
     \<in> set (gather_inputs (self_forward_pipeline (example_engine True False))
              [(''a'', Succeeded [''a.forward''])] ''b'')"
proof -
  let ?p = "self_forward_pipeline (example_engine True False)"
  let ?sd = "make_solid_def (example_item ''item a'' ''a'' True) [(''b'', [''a''])] ''forward'' False"
  let ?c = "((example_engine True False)\<lparr>self_state := RUNNING\<rparr>, env0)"
  have h1: "\<not> solid_execute ?sd" by (simp add: make_solid_def_def)
  have h2: "state (fst ?c) = RUNNING" by (simp add: state_def)
  have n: "sname ?sd = ''a''" by (simp add: make_solid_def_def example_item_def)
  have h3: "list_all (succeeded []) (preds ?p (sname ?sd))"
    by (simp add: n preds_def entries_def example_engine_def example_pipeline_def
        make_dependencies_def dict_comp_def)
  have h4: "\<not> no_stops (BeforeStart (pipeline_name ?p) (sname ?sd))"
    and h5: "\<not> no_stops (BeforeCompute (pipeline_name ?p) (sname ?sd))"
    by (simp_all add: no_stops_def)
  have h6: "map_of (self_project_item_lookup (fst ?c)) (sname ?sd) \<noteq> None"
    by (simp add: n example_engine_def)
  have rs: "fst (output_resources (solid_item ?sd) (world (snd ?c)) (solid_direction ?sd)) = [''a.forward'']"
    by (simp add: make_solid_def_def example_item_def)
  have nm: "short_name (solid_item ?sd) = ''a''" "solid_direction ?sd = ''forward''"
    by (simp_all add: make_solid_def_def example_item_def)
  have dep: "(''input_from_a'', (sname ?sd, ''result'')) \<in> set (entries (dependencies ?p) ''b'')"
    by (simp add: n entries_def example_engine_def example_pipeline_def make_dependencies_def
        dict_comp_def)
  have e0: "item_work (log (snd ?c)) = []" by (simp add: env0_def item_work_def)
  from pass_through_without_permit [OF h1 h2 h3 h4 h5 h6] obtain c1 rs where
    rsdef: "rs = fst (output_resources (solid_item ?sd) (world (snd ?c)) (solid_direction ?sd))"
    and run0: "run_node no_stops ?p [] ?sd ?c = Inr (Succeeded rs, c1)"
    and work0: "item_work (log (snd c1)) =
       item_work (log (snd ?c)) @ [OutputResources (short_name (solid_item ?sd)) (solid_direction ?sd)]"
    and del0: "\<forall>st2 n input_name out. map_of st2 (sname ?sd) = Some (Succeeded rs) \<longrightarrow>
        (input_name, (sname ?sd, out)) \<in> set (entries (dependencies ?p) n) \<longrightarrow>
        (input_name, rs) \<in> set (gather_inputs ?p st2 n)"
    by blast
  from rsdef rs have rs': "rs = [''a.forward'']" by simp
  from run0 rs' have run: "run_node no_stops ?p [] ?sd ?c = Inr (Succeeded [''a.forward''], c1)"
    by simp
  from work0 e0 nm have work: "item_work (log (snd c1)) = [OutputResources ''a'' ''forward'']"
    by simp
  from del0 rs' have del: "\<forall>st2 n input_name out.
        map_of st2 (sname ?sd) = Some (Succeeded [''a.forward'']) \<longrightarrow>
        (input_name, (sname ?sd, out)) \<in> set (entries (dependencies ?p) n) \<longrightarrow>
        (input_name, [''a.forward'']) \<in> set (gather_inputs ?p st2 n)"
    by simp
  have "map_of [(''a'', Succeeded [''a.forward''])] (sname ?sd) = Some (Succeeded [''a.forward''])"
    by (simp add: n)
  with del dep have "(''input_from_a'', [''a.forward''])
      \<in> set (gather_inputs ?p [(''a'', Succeeded [''a.forward''])] ''b'')"
    by blast
  with init_example [of True False] run work show ?thesis by blast
qed

theorem execute_with_permit_witness:
  "SpineEngine_init (\<lambda>p. True) [example_item ''item a'' ''a'' False, example_item ''item b'' ''b'' True]
     successors_ab [(''item a'', True), (''item b'', True)] = Inr (example_engine False True) \<and>
   (\<exists>c1. run_node no_stops (self_forward_pipeline (example_engine False True)) []
           (make_solid_def (example_item ''item a'' ''a'' False) [(''b'', [''a''])] ''forward'' True)
           ((example_engine False True)\<lparr>self_state := RUNNING\<rparr>, env0)
         = Inr (NodeFailed, c1) \<and>
         item_work (log (snd c1)) = [Execute ''a'' [] ''forward'']) \<and>
   (\<exists>st' c'. execute_pipeline_iterator no_stops (self_forward_pipeline (example_engine False True)) []
           ((example_engine False True)\<lparr>self_state := RUNNING\<rparr>, env0) = Inr (st', c') \<and>
         map_of st' ''a'' = Some NodeFailed \<and> map_of st' ''b'' = Some Skipped)"
proof -
  let ?p = "self_forward_pipeline (example_engine False True)"
  let ?sd = "make_solid_def (example_item ''item a'' ''a'' False) [(''b'', [''a''])] ''forward'' True"
  let ?c = "((example_engine False True)\<lparr>self_state := RUNNING\<rparr>, env0)"
  have p: "?p = example_pipeline False True ''forward'' [(''b'', [''a''])]"
    by (simp add: example_engine_def)
  have h1: "solid_execute ?sd" by (simp add: make_solid_def_def)
  have h2: "state (fst ?c) = RUNNING" by (simp add: state_def)
  have n: "sname ?sd = ''a''" by (simp add: make_solid_def_def example_item_def)
  have pr: "preds ?p (sname ?sd) = []"
    by (simp add: n preds_def entries_def example_engine_def example_pipeline_def
        make_dependencies_def dict_comp_def)
  have h3: "list_all (succeeded []) (preds ?p (sname ?sd))"
    by (simp add: pr)
  have h4: "\<not> no_stops (BeforeStart (pipeline_name ?p) (sname ?sd))"
    and h5: "\<not> no_stops (BeforeCompute (pipeline_name ?p) (sname ?sd))"
    by (simp_all add: no_stops_def)
  have h6: "map_of (self_project_item_lookup (fst ?c)) (sname ?sd) \<noteq> None"
    by (simp add: n example_engine_def)
  have ex: "\<not> fst (execute (solid_item ?sd) (world (snd ?c)) [] (solid_direction ?sd))"
    by (simp add: make_solid_def_def example_item_def)
  have nm: "short_name (solid_item ?sd) = ''a''" "solid_direction ?sd = ''forward''"
    by (simp_all add: make_solid_def_def example_item_def)
  have e0: "item_work (log (snd ?c)) = []" by (simp add: env0_def item_work_def)
  have "\<forall>sd\<in>set (solid_defs ?p). map_of (self_project_item_lookup (fst ?c)) (sname sd) \<noteq> None"
    by (simp add: example_engine_def example_pipeline_def make_solid_def_def example_item_def)
  from pass_defined [OF this] obtain st' c' where
    pass: "execute_pipeline_iterator no_stops ?p [] ?c = Inr (st', c')" by blast
  have "case execute_pipeline_iterator no_stops ?p [] ?c of
          Inl e \<Rightarrow> False | Inr (st', c') \<Rightarrow> map_of st' ''a'' = Some NodeFailed"
    by code_simp
  with pass have failed: "map_of st' ''a'' = Some NodeFailed" by simp
  have "(''a'', ''b'') \<in> feeds ?p"
    by (simp add: p feeds_example)
  then have path: "(''a'', ''b'') \<in> (feeds ?p)\<^sup>+"
    by (rule r_into_trancl)
  have ac: "acyclic_closed ?p"
    by (simp add: p acyclic_closed_example)
  have solid: "''b'' \<in> sname ` set (solid_defs ?p)"
    by (simp add: example_engine_def example_pipeline_def make_solid_def_def example_item_def)
  note inst = execute_with_permit [of ?sd ?c "[]" ?p no_stops ?c st' c' "''a''" "''b''"]
  from inst h1 h2 h3 h4 h5 h6 obtain status c1 where
    run: "run_node no_stops ?p [] ?sd ?c = Inr (status, c1)"
    and work: "item_work (log (snd c1)) = [Execute ''a'' [] ''forward'']"
    and st: "status = NodeFailed"
    unfolding Let_def pr using ex nm e0 by auto
  from inst pass failed path ac solid have "map_of st' ''b'' = Some Skipped"
    by blast
  with init_example [of False True] run work st pass failed show ?thesis by blast
qed

section \<open>A run after a stop\<close>

lemma micro_steps_log_grows:
  assumes "micro_step\<^sup>*\<^sup>* c c'"
  shows "\<exists>extra. log (snd c') = log (snd c) @ extra"
  using assms
proof (induction rule: rtranclp_induct)
  case base
  show ?case by simp
next
  case (step y z)
  from step.IH obtain e1 where e1: "log (snd y) = log (snd c) @ e1" by blast
  from step.hyps(2) have "\<exists>e2. log (snd z) = log (snd y) @ e2"
  proof cases
    case (thread stops pt)
    with other_thread_cases [of stops pt y] show ?thesis by auto
  next
    case (event ty n)
    with consume_Inr(2) [OF event(1)] show ?thesis by simp
  next
    case (compute sd inputs res env')
    with compute_fn_log [OF compute(2)] show ?thesis by auto
  qed
  with e1 show ?case by auto
qed

lemma first_node_executed:
  assumes found: "find (ready p []) (solid_defs p) = Some sd"
    and permit: "solid_execute sd"
    and quiet: "\<not> stops (BeforeStart (pipeline_name p) (sname sd))"
      "\<not> stops (BeforeCompute (pipeline_name p) (sname sd))"
    and running: "self_state (fst c) = RUNNING"
    and node: "run_node stops p [] sd c = Inr (status, c1)"
  shows "\<exists>x. log (snd c1) = log (snd c) @ x \<and>
           Execute (short_name (solid_item sd)) [] (solid_direction sd) \<in> set x"
proof -
  from found have "list_all (\<lambda>m. map_of ([] :: (string, 'a node_status) dict) m \<noteq> None) (preds p (sname sd))"
    by (auto simp: find_Some_iff ready_def)
  then have no_preds: "preds p (sname sd) = []"
    by (cases "preds p (sname sd)") simp_all
  then have no_inputs: "gather_inputs p [] (sname sd) = []"
    by (simp add: preds_def gather_inputs_def)
  have ok: "list_all (succeeded []) (preds p (sname sd))"
    by (simp add: no_preds)
  from run_node_running [OF node ok running quiet] obtain self1 env1 res env3 where
    s1: "self_state self1 = RUNNING"
    and l1: "item_work (log env1) = item_work (log (snd c))"
    and comp: "compute_fn self1 sd (gather_inputs p [] (sname sd)) env1 = (res, env3)"
    and l3: "item_work (log (snd c1)) = item_work (log env3)"
    by blast
  from comp permit s1 obtain more where
    "log env3 = log env1 @ Execute (short_name (solid_item sd)) [] (solid_direction sd) # more"
    by (auto simp: compute_fn_def yield_output_def state_def Let_def no_inputs
        split: prod.splits if_splits)
  with l1 l3 have work: "item_work (log (snd c1)) =
      item_work (log (snd c)) @
        item_work (Execute (short_name (solid_item sd)) [] (solid_direction sd) # more)"
    by simp
  from micro_steps_log_grows [OF run_node_micro [OF node]] obtain x where
    x: "log (snd c1) = log (snd c) @ x" by blast
  with work have "item_work x =
      item_work (Execute (short_name (solid_item sd)) [] (solid_direction sd) # more)"
    by simp
  then have "Execute (short_name (solid_item sd)) [] (solid_direction sd) \<in> set (item_work x)"
    by (simp add: item_work_def)
  then have "Execute (short_name (solid_item sd)) [] (solid_direction sd) \<in> set x"
    by (simp add: item_work_def)
  with x show ?thesis by blast
qed

text \<open>
  Claim C10: \<open>run()\<close> sets the state to \<open>RUNNING\<close> whatever it was and no check stops it.
  For an engine whose solids are all in its item lookup, in any state: both passes are
  run, the backward one from the state \<open>RUNNING\<close>, and \<open>run()\<close> returns what the final
  test makes of their outcome; the outcome is the same after a \<open>stop()\<close> before the run
  and from any other prior state; the final state follows only from the stops and the
  node failures during the run, so a prior \<open>USER_STOPPED\<close> is overwritten; and the first
  node the backward pass starts, when its permit is true and no stop arrives before its
  \<open>compute_fn\<close>, has its item executed during the run.
\<close>

theorem run_sets_running:
  assumes kb: "\<forall>sd\<in>set (solid_defs (self_backward_pipeline self)).
                 map_of (self_project_item_lookup self) (sname sd) \<noteq> None"
    and kf: "\<forall>sd\<in>set (solid_defs (self_forward_pipeline self)).
                 map_of (self_project_item_lookup self) (sname sd) \<noteq> None"
  shows "\<exists>stb c2 stf c3 self' env' new.
     execute_pipeline_iterator stops (self_backward_pipeline self) []
       (self\<lparr>self_state := RUNNING\<rparr>, env) = Inr (stb, c2) \<and>
     execute_pipeline_iterator stops (self_forward_pipeline self) [] c2 = Inr (stf, c3) \<and>
     self' = (if self_state (fst (other_thread stops BeforeFinish c3)) = RUNNING
              then (fst (other_thread stops BeforeFinish c3))\<lparr>self_state := COMPLETED\<rparr>
              else fst (other_thread stops BeforeFinish c3)) \<and>
     env' = snd (other_thread stops BeforeFinish c3) \<and>
     run stops self env = Inr (self', env') \<and>
     run stops (fst (stop self env1)) env = Inr (self', env') \<and>
     run stops (self\<lparr>self_state := s\<rparr>) env = Inr (self', env') \<and>
     log env' = log env @ new \<and>
     state self' =
       (if stop_called new then USER_STOPPED else if failure_consumed new then FAILED else COMPLETED) \<and>
     (\<forall>sd. find (ready (self_backward_pipeline self) []) (solid_defs (self_backward_pipeline self)) = Some sd \<longrightarrow>
        solid_execute sd \<longrightarrow>
        \<not> stops (BeforeStart (pipeline_name (self_backward_pipeline self)) (sname sd)) \<longrightarrow>
        \<not> stops (BeforeCompute (pipeline_name (self_backward_pipeline self)) (sname sd)) \<longrightarrow>
        Execute (short_name (solid_item sd)) [] (solid_direction sd) \<in> set new)"
proof -
  let ?p = "self_backward_pipeline self"
  let ?c0 = "(self\<lparr>self_state := RUNNING\<rparr>, env)"
  from run_passes [OF kb kf] obtain stb c2 stf c3 where
    b: "execute_pipeline_iterator stops ?p [] ?c0 = Inr (stb, c2)"
    and f: "execute_pipeline_iterator stops (self_forward_pipeline self) [] c2 = Inr (stf, c3)"
    by blast
  let ?c4 = "other_thread stops BeforeFinish c3"
  let ?self' = "if self_state (fst ?c4) = RUNNING then (fst ?c4)\<lparr>self_state := COMPLETED\<rparr> else fst ?c4"
  have r: "run stops self env = Inr (?self', snd ?c4)"
    using b f by (rule run_unfold)
  have r1: "run stops (fst (stop self env1)) env = Inr (?self', snd ?c4)"
    and r2: "run stops (self\<lparr>self_state := s\<rparr>) env = Inr (?self', snd ?c4)"
    using r run_prior_state_irrelevant [where stops = stops and self = self and s = s
        and env = env and env' = env1]
    by simp_all
  have "micro_step\<^sup>*\<^sup>* c2 c3" using f by (rule pass_micro)
  also have "micro_step c3 ?c4" by (rule micro_step.thread)
  finally have tail: "micro_step\<^sup>*\<^sup>* c2 ?c4" .
  have "micro_step\<^sup>*\<^sup>* ?c0 c2" using b by (rule pass_micro)
  also note tail
  finally have steps: "micro_step\<^sup>*\<^sup>* ?c0 ?c4" .
  have "\<exists>new. log (snd ?c4) = log env @ new \<and> self_state (fst ?c4) = loop_state new"
    using steps by (rule micro_steps_loop_state [where new = "[]"])
      (simp_all add: loop_state_def stop_called_def failure_consumed_def)
  then obtain new where lg: "log (snd ?c4) = log env @ new"
    and st: "self_state (fst ?c4) = loop_state new"
    by blast
  have fin: "state ?self' =
      (if stop_called new then USER_STOPPED else if failure_consumed new then FAILED else COMPLETED)"
    using st by (auto simp: state_def loop_state_def)
  have first: "Execute (short_name (solid_item sd)) [] (solid_direction sd) \<in> set new"
    if found: "find (ready ?p []) (solid_defs ?p) = Some sd"
      and permit: "solid_execute sd"
      and quiet: "\<not> stops (BeforeStart (pipeline_name ?p) (sname sd))"
        "\<not> stops (BeforeCompute (pipeline_name ?p) (sname sd))"
    for sd
  proof -
    from b found obtain status c1 where
      node: "run_node stops ?p [] sd ?c0 = Inr (status, c1)"
      and rest: "execute_pipeline_iterator stops ?p (dict_set [] (sname sd) status) c1 = Inr (stb, c2)"
      by (auto simp: execute_pipeline_iterator.simps [of stops ?p "[]" ?c0] split: sum.splits)
    have "self_state (fst ?c0) = RUNNING" by simp
    from first_node_executed [OF found permit quiet this node] obtain x where
      x: "log (snd c1) = log env @ x"
      and ex: "Execute (short_name (solid_item sd)) [] (solid_direction sd) \<in> set x"
      by auto
    have "micro_step\<^sup>*\<^sup>* c1 c2" using rest by (rule pass_micro)
    also note tail
    finally have "micro_step\<^sup>*\<^sup>* c1 ?c4" .
    from micro_steps_log_grows [OF this] x obtain y where
      "log (snd ?c4) = log env @ x @ y" by auto
    with lg have "new = x @ y" by simp
    with ex show ?thesis by simp
  qed
  from b f r r1 r2 lg fin first show ?thesis by blast
qed

theorem run_sets_running_witness:
  "state (fst (stop (example_engine True True) env0)) = USER_STOPPED \<and>
   (\<exists>self' env'.
      run no_stops (fst (stop (example_engine True True) env0)) env0 = Inr (self', env') \<and>
      state self' = COMPLETED \<and>
      Execute ''b'' [] ''backward'' \<in> set (log env'))"
proof -
  let ?self = "fst (stop (example_engine True True) env0)"
  let ?p = "self_backward_pipeline ?self"
  let ?sd = "make_solid_def (example_item ''item b'' ''b'' True) [(''a'', [''b'']), (''b'', [])]
    ''backward'' True"
  have s: "?self = (example_engine True True)\<lparr>self_state := USER_STOPPED\<rparr>"
    by (simp add: stop_def Let_def example_engine_def)
  have u: "state ?self = USER_STOPPED"
    by (simp add: s state_def)
  have kb: "\<forall>sd\<in>set (solid_defs (self_backward_pipeline ?self)).
      map_of (self_project_item_lookup ?self) (sname sd) \<noteq> None"
    and kf: "\<forall>sd\<in>set (solid_defs (self_forward_pipeline ?self)).
      map_of (self_project_item_lookup ?self) (sname sd) \<noteq> None"
    unfolding s
    by (simp_all add: example_engine_def example_pipeline_def make_solid_def_def example_item_def)
  have found: "find (ready ?p []) (solid_defs ?p) = Some ?sd"
    unfolding s
    by (simp add: example_engine_def example_pipeline_def ready_def pending_def preds_def
        entries_def make_dependencies_def dict_comp_def make_solid_def_def example_item_def)
  have permit: "solid_execute ?sd" by (simp add: make_solid_def_def)
  have quiet: "\<not> no_stops (BeforeStart (pipeline_name ?p) (sname ?sd))"
    "\<not> no_stops (BeforeCompute (pipeline_name ?p) (sname ?sd))"
    by (simp_all add: no_stops_def)
  have nm: "short_name (solid_item ?sd) = ''b''" "solid_direction ?sd = ''backward''"
    by (simp_all add: make_solid_def_def example_item_def)
  from run_sets_running [OF kb kf, of no_stops env0 env0 SLEEPING] obtain self' env' new where
    r: "run no_stops ?self env0 = Inr (self', env')"
    and lg: "log env' = log env0 @ new"
    and first: "\<forall>sd. find (ready ?p []) (solid_defs ?p) = Some sd \<longrightarrow>
        solid_execute sd \<longrightarrow>
        \<not> no_stops (BeforeStart (pipeline_name ?p) (sname sd)) \<longrightarrow>
        \<not> no_stops (BeforeCompute (pipeline_name ?p) (sname sd)) \<longrightarrow>
        Execute (short_name (solid_item sd)) [] (solid_direction sd) \<in> set new"
    by blast
  from first found permit quiet have "Execute (short_name (solid_item ?sd)) [] (solid_direction ?sd) \<in> set new"
    by blast
  with lg nm have ex: "Execute ''b'' [] ''backward'' \<in> set (log env')" by simp
  have "state_after (run no_stops ?self env0) = Some COMPLETED"
    by code_simp
  with r have "state self' = COMPLETED" by (simp add: state_after_def)
  with u r ex show ?thesis by blast
qed

end
